theory Spec2Isabelle
  imports Complex_Main "HOL-Library.Word" "HOL-Library.Log_Nat"
begin

unbundle bit_operations_syntax

section \<open>Command frames: \<open>crypt\<close>, \<open>crc16_byte\<close>, \<open>send_command\<close>\<close>

text \<open>
  An element of a Python \<open>bytes\<close> or \<open>bytearray\<close> object is an integer in \<open>0..255\<close>:
  a \<open>byte\<close>. Python's own integers are unbounded: \<open>int\<close>.
\<close>

type_synonym byte = "8 word"

definition XOR_ARRAY :: "byte list" where
  "XOR_ARRAY =
     [0x16, 0x6c, 0x14, 0xe6, 0x2e, 0x91, 0x0d, 0x40,
      0x21, 0x35, 0xd5, 0x40, 0x13, 0x03, 0xe9, 0x80]"

text \<open>\<open>crypt(b, i) = b ^ XOR_ARRAY[i & 0x0F]\<close>; the index is always below 16.\<close>

definition crypt :: "byte \<Rightarrow> nat \<Rightarrow> byte" where
  "crypt b i = b XOR (XOR_ARRAY ! (i AND 0x0F))"

text \<open>The body of the loop \<open>for _ in range(8)\<close> of \<open>crc16_byte\<close>.\<close>

definition crc16_shift :: "int \<Rightarrow> int" where
  "crc16_shift crc =
     (let crc = push_bit 1 crc
      in if crc > 0xFFFF then (crc XOR 0x1021) AND 0xFFFF else crc)"

definition crc16_byte :: "int \<Rightarrow> int \<Rightarrow> int" where
  "crc16_byte byt crc = (crc16_shift ^^ 8) (crc XOR push_bit 8 byt)"

datatype error = OverflowError

text \<open>
  \<open>n.to_bytes(2, "little")\<close>: the two bytes of \<open>n\<close>, low byte first; Python raises
  OverflowError when \<open>n\<close> is negative or does not fit into two bytes.
\<close>

definition to_bytes2_little :: "int \<Rightarrow> error + byte list" where
  "to_bytes2_little n =
     (if 0 \<le> n \<and> n < 65536
      then Inr [word_of_int (n AND 0xFF), word_of_int (drop_bit 8 n)]
      else Inl OverflowError)"

text \<open>
  \<open>send_command(ser, cmd, payload)\<close>. The serial port \<open>ser\<close> is the sequence of bytes
  written to it so far; the result is the port after \<open>ser.write(frame)\<close>, or the
  exception that left the function before anything was written.
\<close>

definition send_command :: "byte list \<Rightarrow> int \<Rightarrow> byte list \<Rightarrow> error + byte list" where
  "send_command ser cmd payload =
     (let prm_len = int (length payload) in
      (case to_bytes2_little cmd of
         Inl e \<Rightarrow> Inl e
       | Inr cmd_bytes \<Rightarrow>
          (case to_bytes2_little prm_len of
             Inl e \<Rightarrow> Inl e
           | Inr len_bytes \<Rightarrow>
              (let plain = cmd_bytes @ len_bytes @ payload;
                   crc = fold (\<lambda>bb crc. crc16_byte (uint bb) crc) plain 0;
                   enc = map (\<lambda>(i, bb). crypt bb i) (enumerate 0 plain);
                   xor_i = length plain;
                   enc = enc @ [crypt (word_of_int (crc AND 0xFF)) xor_i];
                   xor_i = xor_i + 1;
                   enc = enc @ [crypt (word_of_int (drop_bit 8 crc AND 0xFF)) xor_i];
                   enc_len_field = 4 + prm_len
               in (case to_bytes2_little enc_len_field of
                     Inl e \<Rightarrow> Inl e
                   | Inr len_field \<Rightarrow>
                       Inr (ser @ [0xAB, 0xCD] @ len_field @ enc @ [0xDC, 0xBA]))))))"

subsection \<open>The frame as the specification words it\<close>

text \<open>
  The checksum of the specification: per byte \<open>acc ^= b << 8\<close>, then eight times a left
  shift by one and, when the shifted value exceeds \<open>0xFFFF\<close>, an XOR with \<open>0x1021\<close>
  and a mask to 16 bits.
\<close>

fun spec_shifts :: "nat \<Rightarrow> int \<Rightarrow> int" where
  "spec_shifts 0 acc = acc"
| "spec_shifts (Suc k) acc =
     spec_shifts k (if 2 * acc > 65535 then ((2 * acc) XOR 0x1021) mod 65536 else 2 * acc)"

fun spec_crc16 :: "int \<Rightarrow> byte list \<Rightarrow> int" where
  "spec_crc16 acc [] = acc"
| "spec_crc16 acc (b # bs) = spec_crc16 (spec_shifts 8 (acc XOR (256 * uint b))) bs"

definition le16 :: "nat \<Rightarrow> byte list" where
  "le16 n = [of_nat (n mod 256), of_nat (n div 256)]"

definition spec_key :: "byte list" where
  "spec_key = [0x16, 0x6c, 0x14, 0xe6, 0x2e, 0x91, 0x0d, 0x40,
               0x21, 0x35, 0xd5, 0x40, 0x13, 0x03, 0xe9, 0x80]"

definition spec_record :: "nat \<Rightarrow> byte list \<Rightarrow> byte list" where
  "spec_record c p = le16 c @ le16 (length p) @ p"

definition spec_S :: "nat \<Rightarrow> byte list \<Rightarrow> byte list" where
  "spec_S c p =
     (let crc = nat (spec_crc16 0 (spec_record c p))
      in spec_record c p @ [of_nat (crc mod 256), of_nat (crc div 256)])"

definition spec_E :: "nat \<Rightarrow> byte list \<Rightarrow> byte list" where
  "spec_E c p = map (\<lambda>i. (spec_S c p ! i) XOR (spec_key ! (i mod 16))) [0..<length (spec_S c p)]"

definition spec_frame :: "nat \<Rightarrow> byte list \<Rightarrow> byte list" where
  "spec_frame c p = [0xAB, 0xCD] @ le16 (4 + length p) @ spec_E c p @ [0xDC, 0xBA]"

section \<open>Python values used by the screen code\<close>

subsection \<open>Dictionaries\<close>

text \<open>
  A Python \<open>dict\<close> keeps its keys in insertion order: an association list without
  duplicate keys. \<open>d.get(k)\<close>, \<open>d[k] = v\<close> (a key already present keeps its place, a
  new key goes to the end) and \<open>d.pop(k, None)\<close>.
\<close>

fun dict_get :: "('k \<times> 'v) list \<Rightarrow> 'k \<Rightarrow> 'v option" where
  "dict_get [] k = None"
| "dict_get ((k', v) # d) k = (if k' = k then Some v else dict_get d k)"

fun dict_set :: "'k \<Rightarrow> 'v \<Rightarrow> ('k \<times> 'v) list \<Rightarrow> ('k \<times> 'v) list" where
  "dict_set k v [] = [(k, v)]"
| "dict_set k v ((k', v') # d) = (if k' = k then (k, v) # d else (k', v') # dict_set k v d)"

fun dict_pop :: "'k \<Rightarrow> ('k \<times> 'v) list \<Rightarrow> ('k \<times> 'v) list" where
  "dict_pop k [] = []"
| "dict_pop k ((k', v') # d) = (if k' = k then d else (k', v') # dict_pop k d)"

subsection \<open>Strings\<close>

text \<open>
  A Python \<open>str\<close> is a sequence of Unicode code points. \<open>data.decode("ascii",
  errors="replace")\<close> keeps every byte below 128 and puts U+FFFD in the place of every
  other byte.
\<close>

type_synonym pystr = "nat list"

definition ascii :: "string \<Rightarrow> pystr" where
  "ascii s = map of_char s"

definition decode_ascii_replace :: "byte list \<Rightarrow> pystr" where
  "decode_ascii_replace data = map (\<lambda>b. if b < 0x80 then unat b else 0xFFFD) data"

text \<open>
  \<open>c.isdigit()\<close> on the code points that such a decoded text can hold (ASCII and
  U+FFFD): the ten ASCII digits.
\<close>

definition isdigit :: "nat \<Rightarrow> bool" where
  "isdigit c = (48 \<le> c \<and> c \<le> 57)"

definition looks_like_freq :: "pystr \<Rightarrow> bool" where
  "looks_like_freq s = (46 \<in> set s \<and> list_ex isdigit s)"

subsection \<open>Floats\<close>

text \<open>
  A finite Python \<open>float\<close> is an IEEE 754 binary64 number; it is modelled by the
  rational number it denotes. \<open>fl q\<close> is the binary64 number nearest to \<open>q\<close>, a tie
  going to the even significand: the result of every float literal, conversion and
  arithmetic operation of Python whose exact value is \<open>q\<close>, as long as \<open>q\<close> is zero or
  lies in the normal range of binary64 (from \<open>2 powi -1022\<close> to about \<open>1.8e308\<close> in
  magnitude). Every float this program computes from the bytes of a packet is zero
  or lies between \<open>1/64\<close> and \<open>256\<close>. An \<open>int\<close> beyond the range of binary64 cannot
  be converted (Python raises OverflowError); the numbers that reach the float
  operations of this program are bytes handed over by the parser, and that failure is
  not part of the model.
\<close>

type_synonym pyfloat = rat

definition round_half_even :: "rat \<Rightarrow> int" where
  "round_half_even q =
     (let f = \<lfloor>q\<rfloor>; r = q - of_int f
      in if r < 1 / 2 then f else if 1 / 2 < r then f + 1 else if even f then f else f + 1)"

text \<open>\<open>ilog2 q\<close> is the exponent \<open>e\<close> with \<open>2 powi e \<le> q < 2 powi (e + 1)\<close>, for \<open>q > 0\<close>.\<close>

definition ilog2 :: "rat \<Rightarrow> int" where
  "ilog2 q =
     (case quotient_of q of
        (a, b) \<Rightarrow> (let e = bitlen a - bitlen b in if 2 powi e \<le> q then e else e - 1))"

definition fl :: "rat \<Rightarrow> pyfloat" where
  "fl q =
     (if q = 0 then 0
      else (let u = 2 powi (ilog2 \<bar>q\<bar> - 52) in of_int (round_half_even (q / u)) * u))"

text \<open>\<open>n * x\<close> and \<open>n / x\<close> for an \<open>int\<close> \<open>n\<close> and a \<open>float\<close> \<open>x\<close>: \<open>n\<close> is converted first.\<close>

definition int_mul_float :: "int \<Rightarrow> pyfloat \<Rightarrow> pyfloat" where
  "int_mul_float n x = fl (fl (of_int n) * x)"

definition int_div_float :: "int \<Rightarrow> pyfloat \<Rightarrow> pyfloat" where
  "int_div_float n x = fl (fl (of_int n) / x)"

section \<open>UI helpers\<close>

text \<open>
  \<open>ui_unpack_xy(v1, v2)\<close>: the function below is its \<open>while\<close> loop on the local
  variables \<open>x\<close> and \<open>row\<close>, which start as \<open>v1\<close> and \<open>v2\<close>.
\<close>

function ui_unpack_xy :: "int \<Rightarrow> int \<Rightarrow> int \<times> int" where
  "ui_unpack_xy x row = (if x > 128 then ui_unpack_xy (x - 128) (row + 1) else (x, row))"
  by pat_completeness auto
termination
  by (relation "measure (\<lambda>(x, row). nat (x - 128))") auto

declare ui_unpack_xy.simps [simp del]

definition decode_battery :: "int \<Rightarrow> pyfloat \<times> pyfloat" where
  "decode_battery lenb =
     (let volts = min (int_mul_float lenb (fl (4 / 100))) (fl (84 / 10));
          pct = int_div_float lenb (fl (21 / 10))
      in (volts, pct))"

section \<open>The screen: \<open>LCDView\<close> and \<open>process_events\<close>\<close>

text \<open>
  A \<open>DrawTextCmd\<close> of the source has the fields \<open>x\<close>, \<open>row\<close>, \<open>scale\<close> and \<open>text\<close>.
\<close>

datatype DrawTextCmd =
  DrawTextCmd (cmd_x: int) (cmd_row: int) (cmd_scale: pyfloat) (cmd_text: pystr)

text \<open>
  The keys of \<open>view.buffer\<close> are the strings \<open>f"cell_{ui_t}_{row}_{x}"\<close> and
  \<open>f"cursor_{row}"\<close>; two of them are equal exactly when they are built from the same
  numbers, so a key is modelled by the numbers it is built from.
\<close>

datatype tag = cell_tag int int int | cursor_tag int

text \<open>
  What \<open>view.set_status\<close> was last given: the initial text, the text of a reader error,
  or the values that the status line of a STATUS packet formats (VFO, the two flag
  bytes, volts, percent, key-down time).
\<close>

datatype status_text =
    Waiting
  | ReaderError pystr
  | StatusLine string int int pyfloat pyfloat int

text \<open>
  An element of the queue \<open>q_events\<close>: the pair \<open>("__ERR__", message)\<close> of the reader
  thread, or the tuple \<open>(t, v1, v2, v3, data_len_byte, data)\<close> of \<open>on_ui_packet\<close>.
\<close>

datatype event =
    ERR pystr
  | UI int int int int int "byte list"

text \<open>
  The state that \<open>process_events\<close> works on: the buffer of the view, its status line,
  the variables \<open>vfo_state["which"]\<close>, \<open>cursor_rows\<close>, \<open>last_cursor_row["row"]\<close>,
  \<open>last_freq_by_row\<close> and \<open>keydown_ms\<close> of \<open>main\<close>, and the lines printed so far. The
  canvas of the view is the rendering surface and is not part of the model.
\<close>

record gui =
  buffer :: "(tag \<times> DrawTextCmd) list"
  status_var :: status_text
  vfo_state :: string
  cursor_rows :: "(int \<times> int) list"
  last_cursor_row :: "int option"
  last_freq_by_row :: "(int \<times> pystr) list"
  keydown_ms :: int
  printed :: "pystr list"

definition gui_init :: "int \<Rightarrow> gui" where
  "gui_init ms =
     \<lparr>buffer = [], status_var = Waiting, vfo_state = ''?'', cursor_rows = [],
      last_cursor_row = None, last_freq_by_row = [], keydown_ms = ms, printed = []\<rparr>"

definition clear_lines :: "int \<Rightarrow> int \<Rightarrow> gui \<Rightarrow> gui" where
  "clear_lines y1 y2 g =
     (let kill = map fst (filter (\<lambda>(tg, cmd). y1 \<le> cmd_row cmd \<and> cmd_row cmd \<le> y2) (buffer g))
      in g\<lparr>buffer := fold dict_pop kill (buffer g)\<rparr>)"

definition draw_text :: "DrawTextCmd \<Rightarrow> tag \<Rightarrow> gui \<Rightarrow> gui" where
  "draw_text cmd tag_key g = g\<lparr>buffer := dict_set tag_key cmd (buffer g)\<rparr>"

definition delete_tag :: "tag \<Rightarrow> gui \<Rightarrow> gui" where
  "delete_tag tag_key g = g\<lparr>buffer := dict_pop tag_key (buffer g)\<rparr>"

definition clear_cursor_rows :: "int \<Rightarrow> int \<Rightarrow> gui \<Rightarrow> gui" where
  "clear_cursor_rows y1 y2 g =
     (let dead = filter (\<lambda>r. y1 \<le> r \<and> r \<le> y2) (map fst (cursor_rows g))
      in fold (\<lambda>r g. (delete_tag (cursor_tag r) g)\<lparr>cursor_rows := dict_pop r (cursor_rows g)\<rparr>)
           dead g)"

definition vfo_of_row :: "int \<Rightarrow> string" where
  "vfo_of_row r = (if r < 4 then ''A'' else ''B'')"

definition derive_vfo_from_cursors :: "gui \<Rightarrow> gui" where
  "derive_vfo_from_cursors g =
     (let active_rows = map fst (filter (\<lambda>(r, st). st \<noteq> 0) (cursor_rows g))
      in (case active_rows of
            r # rest \<Rightarrow> g\<lparr>vfo_state := vfo_of_row r\<rparr>
          | [] \<Rightarrow>
             (case last_cursor_row g of
                Some r \<Rightarrow> g\<lparr>vfo_state := vfo_of_row r\<rparr>
              | None \<Rightarrow> g\<lparr>vfo_state := ''?''\<rparr>)))"

text \<open>
  The rule as the specification words it: the smallest row among the cursor entries with
  a style other than 0, else the remembered row, else \<open>"?"\<close>.
\<close>

definition spec_vfo :: "(int \<times> int) list \<Rightarrow> int option \<Rightarrow> string" where
  "spec_vfo rows last_row =
     (case map fst (filter (\<lambda>(r, st). st \<noteq> 0) rows) of
        r # rs \<Rightarrow> vfo_of_row (fold min rs r)
      | [] \<Rightarrow> (case last_row of Some r \<Rightarrow> vfo_of_row r | None \<Rightarrow> ''?''))"

text \<open>The line \<open>f"FREQ {which}: {text} MHz"\<close>.\<close>

definition freq_line :: "string \<Rightarrow> pystr \<Rightarrow> pystr" where
  "freq_line which txt = ascii ''FREQ '' @ ascii which @ ascii '': '' @ txt @ ascii '' MHz''"

text \<open>The body of the loop of \<open>process_events\<close>, for one element of the queue.\<close>

definition process_event :: "gui \<Rightarrow> event \<Rightarrow> gui" where
  "process_event g evt =
     (case evt of
        ERR msg \<Rightarrow> g\<lparr>status_var := ReaderError (ascii ''Serial reader error: '' @ msg)\<rparr>
      | UI ui_t v1 v2 v3 lenb data \<Rightarrow>
          if ui_t = 5 then clear_cursor_rows v1 v2 (clear_lines v1 v2 g)
          else if ui_t = 6 then
            (let g = derive_vfo_from_cursors g;
                 (volts, pct) = decode_battery lenb
             in g\<lparr>status_var := StatusLine (vfo_state g) v1 v2 volts pct (keydown_ms g)\<rparr>)
          else if ui_t = 7 then
            (let row = v1;
                 style = v2;
                 g = g\<lparr>cursor_rows := dict_set row style (cursor_rows g)\<rparr>;
                 g = g\<lparr>last_cursor_row := Some row\<rparr>;
                 glyph = (if style = 0 then [0x25BB] else [0x27A4])
             in draw_text (DrawTextCmd 0 row 1 glyph) (cursor_tag row) g)
          else if ui_t \<in> {0, 1, 2, 3} then
            (let (x, row) = ui_unpack_xy v1 v2;
                 txt = decode_ascii_replace data;
                 (scale, row) =
                   (if ui_t = 0 then (3 / 2, row + 1)
                    else if ui_t = 3 then (2, row + 1)
                    else (int_div_float v3 6, row + 1));
                 g = (if ui_t = 3 \<and> looks_like_freq txt
                      then (let prev = dict_get (last_freq_by_row g) row
                            in if prev \<noteq> Some txt
                               then (let g = g\<lparr>last_freq_by_row :=
                                                 dict_set row txt (last_freq_by_row g)\<rparr>;
                                         which = (if row \<le> 2 then ''TOP'' else ''BOT'')
                                     in g\<lparr>printed := printed g @ [freq_line which txt]\<rparr>)
                               else g)
                      else g)
             in draw_text (DrawTextCmd x row scale txt) (cell_tag ui_t row x) g)
          else g)"

text \<open>\<open>process_events\<close> takes the elements out of the queue in order until it is empty.\<close>

fun process_events :: "gui \<Rightarrow> event list \<Rightarrow> gui" where
  "process_events g [] = g"
| "process_events g (evt # q) = process_events (process_event g evt) q"

section \<open>The parser of the incoming stream\<close>

datatype stage =
    IDLE | CD | LEN_LSB | LEN_MSB | DATA | CRC_LSB | CRC_MSB | DC | BA
  | UI_TYPE | UI_V1 | UI_V2 | UI_V3 | UI_LEN | UI_DATA

record parser =
  stage :: stage
  p_len :: int
  p_cnt :: int
  ui_type :: int
  v1 :: int
  v2 :: int
  v3 :: int
  ui_len :: int
  ui_buf :: "byte list"
  ui_need :: int

definition parser_init :: parser where
  "parser_init =
     \<lparr>stage = IDLE, p_len = 0, p_cnt = 0, ui_type = 0, v1 = 0, v2 = 0, v3 = 0,
      ui_len = 0, ui_buf = [], ui_need = 0\<rparr>"

text \<open>
  \<open>Parser.feed(b)\<close> for one byte \<open>b\<close> of a chunk. The result is the parser after the
  call and what the call handed to \<open>on_ui_packet\<close>, which puts it into the queue.
\<close>

definition feed :: "parser \<Rightarrow> byte \<Rightarrow> parser \<times> event list" where
  "feed p b =
     (case stage p of
        IDLE \<Rightarrow>
          (if b = 0xAB then (p\<lparr>stage := CD\<rparr>, [])
           else if b = 0xB5 then (p\<lparr>stage := UI_TYPE\<rparr>, [])
           else (p, []))
      | CD \<Rightarrow> (p\<lparr>stage := (if b = 0xCD then LEN_LSB else IDLE)\<rparr>, [])
      | LEN_LSB \<Rightarrow> (p\<lparr>p_len := uint b, stage := LEN_MSB\<rparr>, [])
      | LEN_MSB \<Rightarrow>
          (p\<lparr>p_len := p_len p OR push_bit 8 (uint b), p_cnt := 0, stage := DATA\<rparr>, [])
      | DATA \<Rightarrow>
          (let p = p\<lparr>p_cnt := p_cnt p + 1\<rparr>
           in if p_cnt p \<ge> p_len p then (p\<lparr>stage := CRC_LSB\<rparr>, []) else (p, []))
      | CRC_LSB \<Rightarrow> (p\<lparr>stage := CRC_MSB\<rparr>, [])
      | CRC_MSB \<Rightarrow> (p\<lparr>stage := DC\<rparr>, [])
      | DC \<Rightarrow> (p\<lparr>stage := (if b = 0xDC then BA else IDLE)\<rparr>, [])
      | BA \<Rightarrow> (p\<lparr>stage := IDLE\<rparr>, [])
      | UI_TYPE \<Rightarrow> (p\<lparr>ui_type := uint b, stage := UI_V1\<rparr>, [])
      | UI_V1 \<Rightarrow> (p\<lparr>v1 := uint b, stage := UI_V2\<rparr>, [])
      | UI_V2 \<Rightarrow> (p\<lparr>v2 := uint b, stage := UI_V3\<rparr>, [])
      | UI_V3 \<Rightarrow> (p\<lparr>v3 := uint b, stage := UI_LEN\<rparr>, [])
      | UI_LEN \<Rightarrow>
          (let p = p\<lparr>ui_len := uint b\<rparr>;
               p = p\<lparr>ui_buf := []\<rparr>;
               p = p\<lparr>ui_need := (if ui_type p = 6 then 0 else ui_len p)\<rparr>
           in if ui_need p = 0
              then (p\<lparr>stage := IDLE\<rparr>, [UI (ui_type p) (v1 p) (v2 p) (v3 p) (ui_len p) []])
              else (p\<lparr>stage := UI_DATA\<rparr>, []))
      | UI_DATA \<Rightarrow>
          (let p = p\<lparr>ui_buf := ui_buf p @ [b]\<rparr>
           in if int (length (ui_buf p)) \<ge> ui_need p
              then (p\<lparr>stage := IDLE\<rparr>,
                    [UI (ui_type p) (v1 p) (v2 p) (v3 p) (ui_len p) (ui_buf p)])
              else (p, [])))"

text \<open>
  The loop \<open>for b in chunk: parser.feed(b)\<close> of the reader thread, on the parser and
  the queue, and the reader's loop over the chunks that \<open>ser.read\<close> returns (an empty
  chunk is skipped).
\<close>

fun feed_chunk :: "parser \<times> event list \<Rightarrow> byte list \<Rightarrow> parser \<times> event list" where
  "feed_chunk (p, q) [] = (p, q)"
| "feed_chunk (p, q) (b # chunk) = (case feed p b of (p', out) \<Rightarrow> feed_chunk (p', q @ out) chunk)"

fun reader_thread :: "parser \<times> event list \<Rightarrow> byte list list \<Rightarrow> parser \<times> event list" where
  "reader_thread pq [] = pq"
| "reader_thread pq (chunk # chunks) =
     (if chunk = [] then reader_thread pq chunks
      else reader_thread (feed_chunk pq chunk) chunks)"

section \<open>Properties of the command frame\<close>

lemma and15: "(i::nat) AND 0x0F = i mod 16"
proof -
  have "i AND mask 4 = i mod 2 ^ 4" by (simp add: take_bit_eq_mod flip: take_bit_eq_mask)
  then show ?thesis by (simp add: mask_eq_exp_minus_1)
qed

lemma andFFFF: "(x::int) AND 0xFFFF = x mod 65536"
proof -
  have "x AND mask 16 = x mod 2 ^ 16" by (simp add: take_bit_eq_mod flip: take_bit_eq_mask)
  then show ?thesis by (simp add: mask_eq_exp_minus_1)
qed

lemma andFF: "(x::int) AND 0xFF = x mod 256"
proof -
  have "x AND mask 8 = x mod 2 ^ 8" by (simp add: take_bit_eq_mod flip: take_bit_eq_mask)
  then show ?thesis by (simp add: mask_eq_exp_minus_1)
qed

lemma crc16_shift_eq:
  "crc16_shift c = (if 2 * c > 65535 then ((2 * c) XOR 0x1021) mod 65536 else 2 * c)"
  by (simp add: crc16_shift_def Let_def push_bit_eq_mult andFFFF mult.commute)

lemma spec_shifts_funpow: "spec_shifts k acc = (crc16_shift ^^ k) acc"
  by (induction k arbitrary: acc) (simp_all add: funpow_swap1 crc16_shift_eq)

lemma crc16_byte_spec: "crc16_byte (uint b) crc = spec_shifts 8 (crc XOR (256 * uint b))"
  by (simp add: crc16_byte_def spec_shifts_funpow push_bit_eq_mult mult.commute)

lemma fold_crc_spec:
  "fold (\<lambda>bb crc. crc16_byte (uint bb) crc) bs acc = spec_crc16 acc bs"
  by (induction bs arbitrary: acc) (simp_all add: crc16_byte_spec)

lemma shift_range: "0 \<le> c \<Longrightarrow> c < 65536 \<Longrightarrow> 0 \<le> crc16_shift c \<and> crc16_shift c < 65536"
  by (simp add: crc16_shift_eq)

lemma shifts_range: "0 \<le> c \<Longrightarrow> c < 65536 \<Longrightarrow> 0 \<le> spec_shifts k c \<and> spec_shifts k c < 65536"
proof (induction k arbitrary: c)
  case 0 then show ?case by simp
next
  case (Suc k)
  have "0 \<le> crc16_shift c \<and> crc16_shift c < 65536" using Suc.prems by (rule shift_range)
  then show ?case using Suc.IH[of "crc16_shift c"] by (simp add: crc16_shift_eq)
qed

lemma xor_byte_range:
  assumes "0 \<le> c" "c < 65536"
  shows "0 \<le> c XOR (256 * uint (b::byte)) \<and> c XOR (256 * uint b) < 65536"
proof -
  have b: "0 \<le> 256 * uint b" "256 * uint b < 2 ^ 16"
    using uint_lt2p[of b] by simp_all
  have "c XOR (256 * uint b) < 2 ^ 16"
    using assms b by (intro XOR_upper) simp_all
  moreover have "0 \<le> c XOR (256 * uint b)" using assms b by simp
  ultimately show ?thesis by simp
qed

lemma spec_crc16_range: "0 \<le> acc \<Longrightarrow> acc < 65536 \<Longrightarrow> 0 \<le> spec_crc16 acc bs \<and> spec_crc16 acc bs < 65536"
proof (induction bs arbitrary: acc)
  case Nil then show ?case by simp
next
  case (Cons b bs)
  have "0 \<le> acc XOR (256 * uint b) \<and> acc XOR (256 * uint b) < 65536"
    using Cons.prems by (rule xor_byte_range)
  then have "0 \<le> spec_shifts 8 (acc XOR (256 * uint b)) \<and> spec_shifts 8 (acc XOR (256 * uint b)) < 65536"
    using shifts_range by blast
  then show ?case using Cons.IH by simp
qed

lemma byte_lo: "0 \<le> n \<Longrightarrow> (word_of_int (n mod 256) :: byte) = of_nat (nat n mod 256)"
  by (metis (lifting) nat_eq_iff of_int_of_nat_eq of_nat_mod of_nat_numeral)

lemma byte_hi: "0 \<le> n \<Longrightarrow> (word_of_int (n div 256) :: byte) = of_nat (nat n div 256)"
  by (metis leI nat_div_distrib' nat_numeral not_numeral_le_zero of_nat_nat
    pos_imp_zdiv_nonneg_iff zero_le_numeral)

lemma byte_hi_mask: "(word_of_int (n div 256 mod 256) :: byte) = word_of_int (n div 256)"
  by (simp add: word_of_int_eq_iff take_bit_eq_mod)

lemma to_bytes2_le16: "0 \<le> n \<Longrightarrow> n < 65536 \<Longrightarrow> to_bytes2_little n = Inr (le16 (nat n))"
  by (simp add: to_bytes2_little_def le16_def andFF drop_bit_eq_div byte_lo byte_hi)

lemma to_bytes2_overflow: "65536 \<le> n \<Longrightarrow> to_bytes2_little n = Inl OverflowError"
  by (simp add: to_bytes2_little_def)

lemma enumerate_crypt:
  "map (\<lambda>(i, bb). crypt bb i) (enumerate 0 xs) = map (\<lambda>i. crypt (xs ! i) i) [0..<length xs]"
  by (rule nth_equalityI) (simp_all add: nth_enumerate_eq)

lemma crypt_spec: "crypt b i = b XOR (spec_key ! (i mod 16))"
  by (simp add: crypt_def and15 XOR_ARRAY_def spec_key_def)

lemma enc_spec:
  "(map (\<lambda>(i, bb). crypt bb i) (enumerate 0 xs) @ [crypt lo (length xs)]) @ [crypt hi (length xs + 1)]
   = map (\<lambda>i. ((xs @ [lo, hi]) ! i) XOR (spec_key ! (i mod 16))) [0..<length (xs @ [lo, hi])]"
  unfolding enumerate_crypt
  by (rule nth_equalityI) (auto simp: crypt_spec nth_append less_Suc_eq)

lemma send_command_overflow:
  "65531 < length payload \<Longrightarrow> send_command ser cmd payload = Inl OverflowError"
  by (simp add: send_command_def to_bytes2_little_def Let_def split: sum.splits)

lemma crc_golden: "spec_crc16 0 [0x01, 0x08, 0x02, 0x00, 0x2A, 0x00] = 17352"
  by code_simp

lemma golden_frame:
  "spec_frame 0x0801 [0x2A, 0x00] =
     [0xAB, 0xCD, 0x06, 0x00, 0x17, 0x64, 0x16, 0xE6, 0x04, 0x91, 0xC5, 0x03, 0xDC, 0xBA]"
proof -
  have r: "spec_record 0x0801 [0x2A, 0x00] = [0x01, 0x08, 0x02, 0x00, 0x2A, 0x00]"
    by (simp add: spec_record_def le16_def)
  have s: "spec_S 0x0801 [0x2A, 0x00] = [0x01, 0x08, 0x02, 0x00, 0x2A, 0x00, 0xC8, 0x43]"
    unfolding spec_S_def r crc_golden by (simp add: Let_def)
  have e: "spec_E 0x0801 [0x2A, 0x00] = [0x17, 0x64, 0x16, 0xE6, 0x04, 0x91, 0xC5, 0x03]"
    unfolding spec_E_def s by (simp add: spec_key_def)
  show ?thesis
    unfolding spec_frame_def e by (simp add: le16_def)
qed

lemma send_command_in_range:
  assumes "0 \<le> c" "c < 65536" "length p \<le> 65531"
  shows "send_command ser c p = Inr (ser @ spec_frame (nat c) p)"
proof -
  let ?plain = "le16 (nat c) @ le16 (length p) @ p"
  let ?crc = "spec_crc16 0 ?plain"
  have c: "to_bytes2_little c = Inr (le16 (nat c))"
    using assms by (simp add: to_bytes2_le16)
  have l: "to_bytes2_little (int (length p)) = Inr (le16 (length p))"
    using assms to_bytes2_le16[of "int (length p)"] by simp
  have f: "to_bytes2_little (4 + int (length p)) = Inr (le16 (4 + length p))"
    using assms to_bytes2_le16[of "4 + int (length p)"] by (simp add: nat_add_distrib)
  have r: "0 \<le> ?crc" using spec_crc16_range[of 0 ?plain] by simp
  have lo: "(word_of_int (?crc AND 0xFF) :: byte) = of_nat (nat ?crc mod 256)"
    using r by (simp add: andFF byte_lo)
  have hi: "(word_of_int (drop_bit 8 ?crc AND 0xFF) :: byte) = of_nat (nat ?crc div 256)"
    using r by (simp add: andFF drop_bit_eq_div byte_hi_mask byte_hi)
  have enc: "(map (\<lambda>(i, bb). crypt bb i) (enumerate 0 ?plain)
               @ [crypt (word_of_int (?crc AND 0xFF)) (length ?plain)])
               @ [crypt (word_of_int (drop_bit 8 ?crc AND 0xFF)) (length ?plain + 1)]
             = spec_E (nat c) p"
    unfolding lo hi enc_spec by (simp add: spec_E_def spec_S_def spec_record_def Let_def)
  show ?thesis
    unfolding send_command_def Let_def c l f sum.case fold_crc_spec enc
    by (simp add: spec_frame_def)
qed

text \<open>
  Claim C1, as the code has it. For a command id \<open>c\<close> that fits into 16 bits and a
  payload \<open>p\<close> of at most 65531 bytes, \<open>send_command\<close> writes exactly the frame of the
  specification: \<open>AB CD\<close>, then \<open>4 + len(p)\<close> as two bytes, low byte first, then the
  record \<open>c\<close>, \<open>len(p)\<close>, \<open>p\<close> and the low and high byte of its checksum, each byte XORed
  with the key byte at its position modulo 16, then \<open>DC BA\<close>; the checksum is the
  bit-serial one and fits into 16 bits. For a longer payload the length field
  \<open>4 + len(p)\<close> does not fit into two bytes: the call raises OverflowError and writes
  nothing.
\<close>

theorem send_command_frame:
  assumes "0 \<le> c" and "c < 65536"
  shows "send_command ser c p =
           (if length p \<le> 65531 then Inr (ser @ spec_frame (nat c) p) else Inl OverflowError)
         \<and> 0 \<le> spec_crc16 0 (spec_record (nat c) p)
         \<and> spec_crc16 0 (spec_record (nat c) p) < 65536"
  using assms send_command_in_range [of c p ser] send_command_overflow [of p ser c]
    spec_crc16_range [of 0 "spec_record (nat c) p"]
  by simp

theorem send_command_frame_witness:
  "send_command [] 0x0801 [0x2A, 0x00] =
     Inr [0xAB, 0xCD, 0x06, 0x00, 0x17, 0x64, 0x16, 0xE6, 0x04, 0x91, 0xC5, 0x03, 0xDC, 0xBA]"
  using send_command_frame [of "0x0801" "[]" "[0x2A, 0x00]"] by (simp add: golden_frame)

text \<open>
  A payload of 65532 bytes has a length that fits into 16 bits, and no frame is written
  for it.
\<close>

theorem send_command_u16_length_counterexample:
  "int (length (replicate 65532 (0::byte))) < 65536 \<and>
   send_command [] 0x0803 (replicate 65532 0) = Inl OverflowError"
  by (simp add: send_command_overflow)

section \<open>Properties of the parser\<close>

lemma feed_chunk_append:
  "feed_chunk pq (xs @ ys) = feed_chunk (feed_chunk pq xs) ys"
proof (induction xs arbitrary: pq)
  case Nil
  then show ?case by (cases pq) simp
next
  case (Cons b xs)
  then show ?case by (cases pq) (simp split: prod.splits)
qed

lemma reader_thread_concat: "reader_thread pq chunks = feed_chunk pq (concat chunks)"
proof (induction chunks arbitrary: pq)
  case Nil
  then show ?case by (cases pq) simp
next
  case (Cons c cs)
  then show ?case by (cases pq) (simp add: feed_chunk_append)
qed

lemma feed_IDLE:
  "stage p = IDLE \<Longrightarrow> feed p b =
     (if b = 0xAB then (p\<lparr>stage := CD\<rparr>, [])
      else if b = 0xB5 then (p\<lparr>stage := UI_TYPE\<rparr>, []) else (p, []))"
  by (simp add: feed_def)

lemma feed_UI_header:
  assumes "stage p = IDLE"
  shows "feed_chunk (p, q) [0xB5, k, a1, a2, a3] =
           (p\<lparr>stage := UI_LEN, ui_type := uint k, v1 := uint a1, v2 := uint a2, v3 := uint a3\<rparr>, q)"
  using assms by (simp add: feed_def)

lemma feed_UI_LEN:
  "stage p = UI_LEN \<Longrightarrow> feed p b =
     (if ui_type p = 6 \<or> b = 0
      then (p\<lparr>ui_len := uint b, ui_buf := [], ui_need := 0, stage := IDLE\<rparr>,
            [UI (ui_type p) (v1 p) (v2 p) (v3 p) (uint b) []])
      else (p\<lparr>ui_len := uint b, ui_buf := [], ui_need := uint b, stage := UI_DATA\<rparr>, []))"
  by (auto simp add: feed_def Let_def uint_0_iff)

lemma feed_UI_DATA_run:
  assumes "stage p = UI_DATA" and "data \<noteq> []"
    and "int (length (ui_buf p) + length data) = ui_need p"
  shows "feed_chunk (p, q) data =
           (p\<lparr>ui_buf := ui_buf p @ data, stage := IDLE\<rparr>,
            q @ [UI (ui_type p) (v1 p) (v2 p) (v3 p) (ui_len p) (ui_buf p @ data)])"
  using assms
proof (induction data arbitrary: p q)
  case Nil
  then show ?case by simp
next
  case (Cons b data)
  show ?case
  proof (cases "data = []")
    case True
    then show ?thesis using Cons.prems by (simp add: feed_def Let_def)
  next
    case False
    let ?p = "p\<lparr>ui_buf := ui_buf p @ [b]\<rparr>"
    have step: "feed p b = (?p, [])"
      using Cons.prems False by (cases data) (auto simp add: feed_def Let_def)
    have "feed_chunk (?p, q) data =
            (?p\<lparr>ui_buf := ui_buf ?p @ data, stage := IDLE\<rparr>,
             q @ [UI (ui_type ?p) (v1 ?p) (v2 ?p) (v3 ?p) (ui_len ?p) (ui_buf ?p @ data)])"
      using Cons.prems False by (intro Cons.IH) simp_all
    then show ?thesis using step by simp
  qed
qed


lemma uint_byte_eq_6: "(uint (k::byte) = 6) = (k = 6)"
proof -
  have "uint (6::byte) = 6" by simp
  then show ?thesis by (metis word_uint_eq_iff)
qed

lemma feed_UI_packet:
  assumes "stage p = IDLE"
    and "int (length data) = (if k = 6 then 0 else uint L)"
  shows "feed_chunk (p, q) ([0xB5, k, a1, a2, a3, L] @ data) =
           (p\<lparr>stage := IDLE, ui_type := uint k, v1 := uint a1, v2 := uint a2, v3 := uint a3,
              ui_len := uint L, ui_buf := data, ui_need := int (length data)\<rparr>,
            q @ [UI (uint k) (uint a1) (uint a2) (uint a3) (uint L) data])"
proof -
  let ?h = "p\<lparr>stage := UI_LEN, ui_type := uint k, v1 := uint a1, v2 := uint a2, v3 := uint a3\<rparr>"
  have hdr: "feed_chunk (p, q) [0xB5, k, a1, a2, a3] = (?h, q)"
    using assms(1) by (rule feed_UI_header)
  have split: "[0xB5, k, a1, a2, a3, L] @ data = [0xB5, k, a1, a2, a3] @ (L # data)"
    by simp
  show ?thesis
  proof (cases "data = []")
    case True
    then have "uint k = 6 \<or> L = 0"
      using assms(2) by (auto simp: uint_0_iff uint_byte_eq_6 split: if_splits)
    then show ?thesis
      unfolding split feed_chunk_append hdr using True
      by (auto simp add: feed_UI_LEN)
  next
    case False
    then have k: "uint k \<noteq> 6" "L \<noteq> 0" "int (length data) = uint L"
      using assms(2) by (auto simp: uint_byte_eq_6 split: if_splits)
    let ?d = "?h\<lparr>ui_len := uint L, ui_buf := [], ui_need := uint L, stage := UI_DATA\<rparr>"
    have len: "feed ?h L = (?d, [])" using k by (simp add: feed_UI_LEN)
    have "feed_chunk (?d, q) data =
            (?d\<lparr>ui_buf := ui_buf ?d @ data, stage := IDLE\<rparr>,
             q @ [UI (ui_type ?d) (v1 ?d) (v2 ?d) (v3 ?d) (ui_len ?d) (ui_buf ?d @ data)])"
      using False k by (intro feed_UI_DATA_run) simp_all
    then show ?thesis
      unfolding split feed_chunk_append hdr using len k by simp
  qed
qed


lemma feed_IDLE_stray:
  "stage p = IDLE \<Longrightarrow> b \<noteq> 0xAB \<Longrightarrow> b \<noteq> 0xB5 \<Longrightarrow> feed p b = (p, [])"
  by (simp add: feed_def)

lemma feed_chunk_stray:
  "stage p = IDLE \<Longrightarrow> \<forall>b\<in>set pre. b \<noteq> 0xAB \<and> b \<noteq> 0xB5 \<Longrightarrow> feed_chunk (p, q) pre = (p, q)"
  by (induction pre) (simp_all add: feed_IDLE_stray)

text \<open>
  Claim C2. Two ways of cutting the same byte sequence into chunks give the same queue of
  emitted packets and the same parser, from any parser and queue; in particular the
  chunks as read and the same bytes fed one at a time.
\<close>

theorem chunking_determinism:
  assumes "concat chunks = concat chunks'"
  shows "reader_thread pq chunks = reader_thread pq chunks' \<and>
         reader_thread pq chunks = reader_thread pq (map (\<lambda>b. [b]) (concat chunks))"
proof -
  have "concat (map (\<lambda>b. [b]) (concat chunks)) = concat chunks"
    by simp
  then show ?thesis using assms by (simp add: reader_thread_concat)
qed

theorem chunking_determinism_witness:
  "reader_thread (parser_init, []) [[0xB5, 0, 5], [], [1, 0, 1, 0x41]] =
     reader_thread (parser_init, []) [[0xB5], [0, 5, 1, 0, 1], [0x41]] \<and>
   reader_thread (parser_init, []) [[0xB5, 0, 5], [], [1, 0, 1, 0x41]] =
     reader_thread (parser_init, [])
       (map (\<lambda>b. [b]) (concat [[0xB5, 0, 5], [], [1, 0, 1, 0x41]])) \<and>
   snd (reader_thread (parser_init, []) [[0xB5, 0, 5], [], [1, 0, 1, 0x41]]) =
     [UI 0 5 1 0 1 [0x41]]"
proof -
  have c: "concat [[0xB5, 0, 5], [], [1, 0, 1, 0x41 :: byte]] =
           concat [[0xB5], [0, 5, 1, 0, 1], [0x41]]"
    by simp
  have e: "snd (reader_thread (parser_init, []) [[0xB5, 0, 5], [], [1, 0, 1, 0x41]]) =
             [UI 0 5 1 0 1 [0x41]]"
    by (simp add: feed_def parser_init_def Let_def)
  show ?thesis
    using chunking_determinism [OF c, of "(parser_init, [])"] e by blast
qed

text \<open>
  Claim C4, on the code. After \<open>AB CD 00 00\<close> the parser is in \<open>DATA\<close>, not in
  \<open>CRC_LSB\<close>: the byte after a zero length is counted as data (\<open>p_cnt\<close> becomes 1), the
  second checksum byte is taken as the first, \<open>DC\<close> as the second, and the frame ends
  in \<open>IDLE\<close> only because \<open>BA\<close> fails the test for \<open>DC\<close>.
\<close>

theorem ack_zero_length_consumes_data_byte:
  "stage (fst (feed_chunk (parser_init, []) [0xAB, 0xCD, 0x00, 0x00])) = DATA \<and>
   feed_chunk (parser_init, []) [0xAB, 0xCD, 0x00, 0x00, c1] =
     (parser_init\<lparr>p_cnt := 1, stage := CRC_LSB\<rparr>, []) \<and>
   feed_chunk (parser_init, []) [0xAB, 0xCD, 0x00, 0x00, c1, c2] =
     (parser_init\<lparr>p_cnt := 1, stage := CRC_MSB\<rparr>, []) \<and>
   feed_chunk (parser_init, []) [0xAB, 0xCD, 0x00, 0x00, c1, c2, 0xDC] =
     (parser_init\<lparr>p_cnt := 1, stage := DC\<rparr>, []) \<and>
   feed_chunk (parser_init, []) [0xAB, 0xCD, 0x00, 0x00, c1, c2, 0xDC, 0xBA] =
     (parser_init\<lparr>p_cnt := 1, stage := IDLE\<rparr>, [])"
  by (simp add: feed_def parser_init_def Let_def)

text \<open>
  Claim C5, as the code has it. A prefix that by itself makes the parser emit nothing and
  leaves it in \<open>IDLE\<close>, followed by one well-formed UI packet (\<open>B5\<close>, kind, three value
  bytes, the length byte, and as many data bytes as the length byte says, none for
  kind 6): a fresh parser emits exactly that packet and ends in \<open>IDLE\<close>.
\<close>

theorem resync_after_idle_prefix:
  assumes "feed_chunk (parser_init, []) pre = (p, [])"
    and "stage p = IDLE"
    and "int (length data) = (if k = 6 then 0 else uint L)"
  shows "snd (feed_chunk (parser_init, []) (pre @ [0xB5, k, a1, a2, a3, L] @ data)) =
           [UI (uint k) (uint a1) (uint a2) (uint a3) (uint L) data] \<and>
         stage (fst (feed_chunk (parser_init, []) (pre @ [0xB5, k, a1, a2, a3, L] @ data))) = IDLE"
  unfolding feed_chunk_append [of _ pre] assms(1)
  using feed_UI_packet [OF assms(2) assms(3), of "[]" a1 a2 a3] by simp

theorem resync_after_idle_prefix_witness:
  "snd (feed_chunk (parser_init, []) ([0x00, 0xDC, 0xBA, 0xFF] @ [0xB5, 3, 5, 1, 0, 2, 0x34, 0x2E])) =
     [UI 3 5 1 0 2 [0x34, 0x2E]]"
proof -
  have pre: "feed_chunk (parser_init, []) [0x00, 0xDC, 0xBA, 0xFF] = (parser_init, [])"
    by (simp add: feed_IDLE_stray parser_init_def)
  have idle: "stage parser_init = IDLE" by (simp add: parser_init_def)
  have len: "int (length [0x34, 0x2E :: byte]) = (if (3::byte) = 6 then 0 else uint (2::byte))"
    by simp
  show ?thesis
    using resync_after_idle_prefix [OF pre idle len, of 5 1 0] by simp
qed

text \<open>
  A stray \<open>B5\<close> before the packet: the prefix emits nothing, and what the parser then
  emits is not the packet that follows (the sync byte of the packet is read as a kind).
\<close>

theorem resync_mid_frame_counterexample:
  "snd (feed_chunk (parser_init, []) [0xB5]) = [] \<and>
   snd (feed_chunk (parser_init, []) ([0xB5] @ [0xB5, 0, 5, 1, 0, 1, 0x41])) = [UI 181 0 5 1 0 []] \<and>
   snd (feed_chunk (parser_init, []) ([0xB5] @ [0xB5, 0, 5, 1, 0, 1, 0x41])) \<noteq> [UI 0 5 1 0 1 [0x41]]"
  by (simp add: feed_def parser_init_def Let_def)

text \<open>
  Claim C6. From \<open>IDLE\<close>, the header \<open>B5 06 a1 a2 a3 L\<close> emits nothing before the length
  byte \<open>L\<close> and, with \<open>L\<close>, the packet of kind 6 with empty data and \<open>L\<close> itself as declared
  length, whatever \<open>L\<close> is; the parser is in \<open>IDLE\<close> again, so the bytes that follow are read
  from \<open>IDLE\<close> and none of them is taken as payload.
\<close>

theorem status_packet_emitted_at_length_byte:
  assumes "stage p = IDLE"
  shows "feed_chunk (p, q) [0xB5, 6, a1, a2, a3] =
           (p\<lparr>stage := UI_LEN, ui_type := 6, v1 := uint a1, v2 := uint a2, v3 := uint a3\<rparr>, q) \<and>
         feed_chunk (p, q) [0xB5, 6, a1, a2, a3, L] =
           (p\<lparr>stage := IDLE, ui_type := 6, v1 := uint a1, v2 := uint a2, v3 := uint a3,
              ui_len := uint L, ui_buf := [], ui_need := 0\<rparr>,
            q @ [UI 6 (uint a1) (uint a2) (uint a3) (uint L) []]) \<and>
         feed_chunk (p, q) ([0xB5, 6, a1, a2, a3, L] @ rest) =
           feed_chunk
             (p\<lparr>stage := IDLE, ui_type := 6, v1 := uint a1, v2 := uint a2, v3 := uint a3,
                ui_len := uint L, ui_buf := [], ui_need := 0\<rparr>,
              q @ [UI 6 (uint a1) (uint a2) (uint a3) (uint L) []]) rest"
proof -
  have h: "feed_chunk (p, q) [0xB5, 6, a1, a2, a3] =
           (p\<lparr>stage := UI_LEN, ui_type := 6, v1 := uint a1, v2 := uint a2, v3 := uint a3\<rparr>, q)"
    using feed_UI_header [OF assms, of q 6 a1 a2 a3] by simp
  have l: "int (length ([]::byte list)) = (if (6::byte) = 6 then 0 else uint L)" by simp
  have f: "feed_chunk (p, q) [0xB5, 6, a1, a2, a3, L] =
           (p\<lparr>stage := IDLE, ui_type := 6, v1 := uint a1, v2 := uint a2, v3 := uint a3,
              ui_len := uint L, ui_buf := [], ui_need := 0\<rparr>,
            q @ [UI 6 (uint a1) (uint a2) (uint a3) (uint L) []])"
    using feed_UI_packet [OF assms l, of q a1 a2 a3] by simp
  show ?thesis
    unfolding feed_chunk_append [of _ "[0xB5, 6, a1, a2, a3, L]"] f using h by simp
qed

theorem status_packet_emitted_at_length_byte_witness:
  "feed_chunk (parser_init, []) [0xB5, 6, 1, 2, 3, 200, 0x41] =
     (parser_init\<lparr>ui_type := 6, v1 := 1, v2 := 2, v3 := 3, ui_len := 200\<rparr>, [UI 6 1 2 3 200 []])"
proof -
  have idle: "stage parser_init = IDLE" by (simp add: parser_init_def)
  have "feed_chunk (parser_init, []) ([0xB5, 6, 1, 2, 3, 200] @ [0x41]) =
          feed_chunk
            (parser_init\<lparr>stage := IDLE, ui_type := 6, v1 := uint (1::byte), v2 := uint (2::byte),
               v3 := uint (3::byte), ui_len := uint (200::byte), ui_buf := [], ui_need := 0\<rparr>,
             [] @ [UI 6 (uint (1::byte)) (uint (2::byte)) (uint (3::byte)) (uint (200::byte)) []])
            [0x41]"
    using status_packet_emitted_at_length_byte [OF idle, of "[]" 1 2 3 200 "[0x41]"] by blast
  then show ?thesis
    by (simp add: feed_IDLE_stray parser_init_def)
qed

section \<open>Properties of the screen model\<close>

subsection \<open>The VFO\<close>

lemma fold_min_sorted: "\<forall>x\<in>set rs. r \<le> x \<Longrightarrow> fold min rs (r::int) = r"
  by (induction rs) (simp_all add: min_absorb2)

lemma derive_vfo_eq:
  "derive_vfo_from_cursors g =
     g\<lparr>vfo_state :=
         (case find (\<lambda>(r, st). st \<noteq> 0) (cursor_rows g) of
            Some (r, st) \<Rightarrow> vfo_of_row r
          | None \<Rightarrow> (case last_cursor_row g of Some r \<Rightarrow> vfo_of_row r | None \<Rightarrow> ''?''))\<rparr>"
proof -
  have "\<And>rows. (case map fst (filter (\<lambda>(r, st). st \<noteq> (0::int)) rows) of
                  r # rest \<Rightarrow> Some (r::int) | [] \<Rightarrow> None) =
               map_option fst (find (\<lambda>(r, st). st \<noteq> 0) rows)"
    subgoal for rows by (induction rows) auto
    done
  note h = this [of "cursor_rows g"]
  show ?thesis
    using h
    by (cases "find (\<lambda>(r, st). st \<noteq> 0) (cursor_rows g)")
       (auto simp add: derive_vfo_from_cursors_def Let_def split: list.splits option.splits)
qed

lemma spec_vfo_sorted:
  assumes "sorted (map fst rows)"
  shows "spec_vfo rows last_row =
         (case find (\<lambda>(r, st). st \<noteq> 0) rows of
            Some (r, st) \<Rightarrow> vfo_of_row r
          | None \<Rightarrow> (case last_row of Some r \<Rightarrow> vfo_of_row r | None \<Rightarrow> ''?''))"
  using assms
proof (induction rows)
  case Nil
  then show ?case by (simp add: spec_vfo_def)
next
  case (Cons p rows)
  obtain r st where p: "p = (r, st)" by (cases p)
  show ?case
  proof (cases "st = 0")
    case True
    then show ?thesis using Cons p by (simp add: spec_vfo_def)
  next
    case False
    have "\<forall>x\<in>set (map fst (filter (\<lambda>(r, st). st \<noteq> 0) rows)). r \<le> x"
      using Cons.prems p by auto
    then have "fold min (map fst (filter (\<lambda>(r, st). st \<noteq> 0) rows)) r = r"
      by (rule fold_min_sorted)
    then show ?thesis using False p by (simp add: spec_vfo_def)
  qed
qed

lemma status_vfo:
  "vfo_state (process_event g (UI 6 a1 a2 a3 lenb data)) = vfo_state (derive_vfo_from_cursors g)"
  by (simp add: process_event_def Let_def split: prod.splits)

lemma two_cursors_ascending:
  "process_events (gui_init 60) [UI 7 1 0 0 0 [], UI 7 5 2 0 0 []] =
     (gui_init 60)\<lparr>buffer := [(cursor_tag 1, DrawTextCmd 0 1 1 [0x25BB]),
                              (cursor_tag 5, DrawTextCmd 0 5 1 [0x27A4])],
                   cursor_rows := [(1, 0), (5, 2)], last_cursor_row := Some 5\<rparr>"
  by (simp add: process_event_def Let_def gui_init_def draw_text_def)

lemma two_cursors_descending:
  "process_events (gui_init 60) [UI 7 5 2 0 0 [], UI 7 1 1 0 0 []] =
     (gui_init 60)\<lparr>buffer := [(cursor_tag 5, DrawTextCmd 0 5 1 [0x27A4]),
                              (cursor_tag 1, DrawTextCmd 0 1 1 [0x27A4])],
                   cursor_rows := [(5, 2), (1, 1)], last_cursor_row := Some 1\<rparr>"
  by (simp add: process_event_def Let_def gui_init_def draw_text_def)

text \<open>
  Claim C3, as the code has it. \<open>derive_vfo_from_cursors\<close> changes the VFO only, and
  takes it from the first cursor entry with a style other than 0 in the order in which
  the rows entered the table; without such an entry from the remembered last cursor row;
  without that it is \<open>"?"\<close>. A row \<open>r\<close> gives \<open>"A"\<close> if \<open>r < 4\<close> and \<open>"B"\<close> otherwise. When
  the rows of the table are in ascending order, this is the rule of the specification
  (the smallest such row).
\<close>

theorem vfo_from_first_active_row:
  "derive_vfo_from_cursors g =
     g\<lparr>vfo_state :=
         (case find (\<lambda>(r, st). st \<noteq> 0) (cursor_rows g) of
            Some (r, st) \<Rightarrow> (if r < 4 then ''A'' else ''B'')
          | None \<Rightarrow>
             (case last_cursor_row g of
                Some r \<Rightarrow> (if r < 4 then ''A'' else ''B'')
              | None \<Rightarrow> ''?''))\<rparr> \<and>
   (sorted (map fst (cursor_rows g)) \<longrightarrow>
      vfo_state (derive_vfo_from_cursors g) = spec_vfo (cursor_rows g) (last_cursor_row g))"
  by (simp add: derive_vfo_eq spec_vfo_sorted vfo_of_row_def split: option.splits prod.splits)

theorem vfo_from_first_active_row_witness:
  "vfo_state (derive_vfo_from_cursors
      (process_events (gui_init 60) [UI 7 1 0 0 0 [], UI 7 5 2 0 0 []])) = ''B'' \<and>
   spec_vfo [(1, 0), (5, 2)] (Some 5) = ''B''"
  using vfo_from_first_active_row
    [of "process_events (gui_init 60) [UI 7 1 0 0 0 [], UI 7 5 2 0 0 []]"]
  unfolding two_cursors_ascending
  by (simp add: gui_init_def spec_vfo_def vfo_of_row_def)

text \<open>
  Two CURSOR packets, row 5 with style 2 and then row 1 with style 1: the smallest row
  with a style other than 0 is row 1, which would give \<open>"A"\<close>; the STATUS packet that
  follows sets the VFO to \<open>"B"\<close>, from row 5, the first one in the table.
\<close>

theorem vfo_smallest_row_counterexample:
  "cursor_rows (process_events (gui_init 60) [UI 7 5 2 0 0 [], UI 7 1 1 0 0 []]) = [(5, 2), (1, 1)] \<and>
   vfo_state (process_events (gui_init 60)
                [UI 7 5 2 0 0 [], UI 7 1 1 0 0 [], UI 6 0 0 0 210 []]) = ''B'' \<and>
   spec_vfo [(5, 2), (1, 1)] (Some 1) = ''A''"
proof -
  let ?g = "process_events (gui_init 60) [UI 7 5 2 0 0 [], UI 7 1 1 0 0 []]"
  have "process_events (gui_init 60) [UI 7 5 2 0 0 [], UI 7 1 1 0 0 [], UI 6 0 0 0 210 []] =
        process_event ?g (UI 6 0 0 0 210 [])"
    by simp
  then have "vfo_state (process_events (gui_init 60)
                [UI 7 5 2 0 0 [], UI 7 1 1 0 0 [], UI 6 0 0 0 210 []]) =
             vfo_state (derive_vfo_from_cursors ?g)"
    by (simp only: status_vfo)
  also have "\<dots> = ''B''"
    unfolding two_cursors_descending
    by (simp add: derive_vfo_from_cursors_def vfo_of_row_def gui_init_def)
  finally have b: "vfo_state (process_events (gui_init 60)
                [UI 7 5 2 0 0 [], UI 7 1 1 0 0 [], UI 6 0 0 0 210 []]) = ''B''" .
  have c: "cursor_rows ?g = [(5, 2), (1, 1)]"
    unfolding two_cursors_descending by (simp add: gui_init_def)
  have s: "spec_vfo [(5, 2), (1, 1)] (Some 1) = ''A''"
    by (simp add: spec_vfo_def vfo_of_row_def)
  show ?thesis using b c s by blast
qed

subsection \<open>TEXT packets\<close>

lemma div128_step: "(x - 1) div 128 = (x - 129) div 128 + (1::int)"
proof -
  have "x - 1 = (x - 129) + 128" by simp
  then show ?thesis by (metis div_add_self2 zero_neq_numeral)
qed

lemma div128_one: "128 < x \<Longrightarrow> \<not> 128 < x - 128 \<Longrightarrow> (x - 1) div 128 = (1::int)"
  by (rule int_div_pos_eq [of _ _ _ "x - 129"]) simp_all

lemma ui_unpack_xy_closed:
  "ui_unpack_xy x row =
     (if x > 128 then (x - 128 * ((x - 1) div 128), row + (x - 1) div 128) else (x, row))"
proof (induction x row rule: ui_unpack_xy.induct)
  case (1 x row)
  show ?case
  proof (cases "x > 128")
    case False
    then show ?thesis by (subst ui_unpack_xy.simps) simp
  next
    case True
    note big = this
    show ?thesis
    proof (cases "x - 128 > 128")
      case True
      have "ui_unpack_xy x row = ui_unpack_xy (x - 128) (row + 1)"
        using big by (subst ui_unpack_xy.simps) simp
      also have "\<dots> = (x - 128 - 128 * ((x - 129) div 128), row + 1 + (x - 129) div 128)"
        using "1.IH" [OF big] True by simp
      also have "\<dots> = (x - 128 * ((x - 1) div 128), row + (x - 1) div 128)"
        unfolding div128_step by simp
      finally show ?thesis using big by simp
    next
      case False
      have "ui_unpack_xy x row = ui_unpack_xy (x - 128) (row + 1)"
        using big by (subst ui_unpack_xy.simps) simp
      also have "\<dots> = (x - 128, row + 1)"
        using "1.IH" [OF big] False by simp
      finally show ?thesis using big div128_one [OF big False] by simp
    qed
  qed
qed

lemma process_text:
  assumes "ui_t \<in> {0, 1, 2, 3}"
  shows "process_event g (UI ui_t a1 a2 a3 lenb data) =
     (let x = fst (ui_unpack_xy a1 a2);
          row = snd (ui_unpack_xy a1 a2) + 1;
          txt = decode_ascii_replace data;
          scale = (if ui_t = 0 then 3 / 2 else if ui_t = 3 then 2 else int_div_float a3 6);
          g1 = (if ui_t = 3 \<and> looks_like_freq txt \<and> dict_get (last_freq_by_row g) row \<noteq> Some txt
                then g\<lparr>last_freq_by_row := dict_set row txt (last_freq_by_row g),
                       printed := printed g @ [freq_line (if row \<le> 2 then ''TOP'' else ''BOT'') txt]\<rparr>
                else g)
      in g1\<lparr>buffer := dict_set (cell_tag ui_t row x) (DrawTextCmd x row scale txt) (buffer g1)\<rparr>)"
proof -
  have k: "ui_t \<noteq> 5" "ui_t \<noteq> 6" "ui_t \<noteq> 7" using assms by auto
  show ?thesis
    using assms
    by (cases "ui_unpack_xy a1 a2")
       (auto simp add: process_event_def k Let_def draw_text_def)
qed




subsection \<open>Frequency changes\<close>

lemma dict_get_dict_set: "dict_get (dict_set k v d) k = Some v"
  by (induction d) auto

lemma text3_printed:
  "printed (process_event g (UI 3 a1 a2 a3 lenb data)) =
     printed g @
       (if looks_like_freq (decode_ascii_replace data) \<and>
           dict_get (last_freq_by_row g) (snd (ui_unpack_xy a1 a2) + 1) \<noteq>
             Some (decode_ascii_replace data)
        then [freq_line (if snd (ui_unpack_xy a1 a2) + 1 \<le> 2 then ''TOP'' else ''BOT'')
                (decode_ascii_replace data)]
        else [])"
  by (simp add: process_text Let_def)

lemma text3_memory:
  "looks_like_freq (decode_ascii_replace data) \<Longrightarrow>
   dict_get (last_freq_by_row (process_event g (UI 3 a1 a2 a3 lenb data)))
     (snd (ui_unpack_xy a1 a2) + 1) = Some (decode_ascii_replace data)"
  by (simp add: process_text Let_def dict_get_dict_set)

lemma freq_change_steps:
  assumes "ui_t \<in> {0, 1, 2, 3}"
  shows "(let row = snd (ui_unpack_xy a1 a2) + 1;
              txt = decode_ascii_replace data;
              g' = process_event g (UI ui_t a1 a2 a3 lenb data)
          in if ui_t = 3 \<and> looks_like_freq txt \<and> dict_get (last_freq_by_row g) row \<noteq> Some txt
             then printed g' = printed g @ [freq_line (if row \<le> 2 then ''TOP'' else ''BOT'') txt] \<and>
                  last_freq_by_row g' = dict_set row txt (last_freq_by_row g) \<and>
                  dict_get (last_freq_by_row g') row = Some txt
             else printed g' = printed g \<and> last_freq_by_row g' = last_freq_by_row g) \<and>
         (let row = snd (ui_unpack_xy a1 a2) + 1;
              txt = decode_ascii_replace data;
              txt' = decode_ascii_replace data';
              which = (if row \<le> 2 then ''TOP'' else ''BOT'');
              e = UI 3 a1 a2 a3 lenb data;
              e' = UI 3 a1 a2 a3' lenb' data'
          in looks_like_freq txt \<and> looks_like_freq txt' \<and> txt' \<noteq> txt \<and>
             dict_get (last_freq_by_row g) row \<noteq> Some txt \<longrightarrow>
               printed (process_events g [e]) = printed g @ [freq_line which txt] \<and>
               printed (process_events g [e, e]) = printed g @ [freq_line which txt] \<and>
               printed (process_events g [e, e, e]) = printed g @ [freq_line which txt] \<and>
               printed (process_events g [e, e, e, e']) =
                 printed g @ [freq_line which txt, freq_line which txt'])"
proof -
  have one: "let row = snd (ui_unpack_xy a1 a2) + 1;
              txt = decode_ascii_replace data;
              g' = process_event g (UI ui_t a1 a2 a3 lenb data)
          in if ui_t = 3 \<and> looks_like_freq txt \<and> dict_get (last_freq_by_row g) row \<noteq> Some txt
             then printed g' = printed g @ [freq_line (if row \<le> 2 then ''TOP'' else ''BOT'') txt] \<and>
                  last_freq_by_row g' = dict_set row txt (last_freq_by_row g) \<and>
                  dict_get (last_freq_by_row g') row = Some txt
             else printed g' = printed g \<and> last_freq_by_row g' = last_freq_by_row g"
    by (simp add: process_text [OF assms] Let_def dict_get_dict_set)
  have seq: "let row = snd (ui_unpack_xy a1 a2) + 1;
              txt = decode_ascii_replace data;
              txt' = decode_ascii_replace data';
              which = (if row \<le> 2 then ''TOP'' else ''BOT'');
              e = UI 3 a1 a2 a3 lenb data;
              e' = UI 3 a1 a2 a3' lenb' data'
          in looks_like_freq txt \<and> looks_like_freq txt' \<and> txt' \<noteq> txt \<and>
             dict_get (last_freq_by_row g) row \<noteq> Some txt \<longrightarrow>
               printed (process_events g [e]) = printed g @ [freq_line which txt] \<and>
               printed (process_events g [e, e]) = printed g @ [freq_line which txt] \<and>
               printed (process_events g [e, e, e]) = printed g @ [freq_line which txt] \<and>
               printed (process_events g [e, e, e, e']) =
                 printed g @ [freq_line which txt, freq_line which txt']"
    unfolding Let_def
  proof (intro impI, elim conjE)
    let ?row = "snd (ui_unpack_xy a1 a2) + 1"
    let ?txt = "decode_ascii_replace data"
    let ?txt' = "decode_ascii_replace data'"
    let ?e = "UI 3 a1 a2 a3 lenb data"
    let ?e' = "UI 3 a1 a2 a3' lenb' data'"
    let ?n = "freq_line (if ?row \<le> 2 then ''TOP'' else ''BOT'') ?txt"
    let ?n' = "freq_line (if ?row \<le> 2 then ''TOP'' else ''BOT'') ?txt'"
    assume f: "looks_like_freq ?txt" and f': "looks_like_freq ?txt'"
      and d: "?txt' \<noteq> ?txt" and m: "dict_get (last_freq_by_row g) ?row \<noteq> Some ?txt"
    let ?g1 = "process_event g ?e"
    let ?g2 = "process_event ?g1 ?e"
    let ?g3 = "process_event ?g2 ?e"
    let ?g4 = "process_event ?g3 ?e'"
    have p1: "printed ?g1 = printed g @ [?n]"
      using f m by (simp add: text3_printed)
    have m1: "dict_get (last_freq_by_row ?g1) ?row = Some ?txt"
      using f by (rule text3_memory)
    have p2: "printed ?g2 = printed g @ [?n]"
      using m1 p1 by (simp add: text3_printed [of ?g1])
    have m2: "dict_get (last_freq_by_row ?g2) ?row = Some ?txt"
      using f by (rule text3_memory)
    have p3: "printed ?g3 = printed g @ [?n]"
      using m2 p2 by (simp add: text3_printed [of ?g2])
    have m3: "dict_get (last_freq_by_row ?g3) ?row = Some ?txt"
      using f by (rule text3_memory)
    have p4: "printed ?g4 = printed g @ [?n, ?n']"
      using m3 p3 f' d by (simp add: text3_printed [of ?g3])
    show "printed (process_events g [?e]) = printed g @ [?n] \<and>
          printed (process_events g [?e, ?e]) = printed g @ [?n] \<and>
          printed (process_events g [?e, ?e, ?e]) = printed g @ [?n] \<and>
          printed (process_events g [?e, ?e, ?e, ?e']) = printed g @ [?n, ?n']"
      using p1 p2 p3 p4 by simp
  qed
  show ?thesis using one seq by blast
qed

lemma looks_like_freq_explicit:
  "looks_like_freq s \<longleftrightarrow> 46 \<in> set s \<and> (\<exists>c\<in>set s. 48 \<le> c \<and> c \<le> 57)"
  by (simp add: looks_like_freq_def isdigit_def list_ex_iff)

lemma freq_line_explicit:
  "freq_line (if row \<le> (2::int) then ''TOP'' else ''BOT'') txt =
     [70, 82, 69, 81, 32] @ (if row \<le> 2 then [84, 79, 80] else [66, 79, 84]) @ [58, 32] @ txt @
     [32, 77, 72, 122]"
  by (simp add: freq_line_def ascii_def)

lemma text_row_explicit:
  "snd (ui_unpack_xy a1 a2) + 1 = a2 + (if 128 < a1 then (a1 - 1) div 128 else 0) + 1"
  by (simp add: ui_unpack_xy_closed)

text \<open>
  Claim C8. For a TEXT packet, with the row of its cell (\<open>v2\<close>, plus one for every 128
  taken off \<open>v1\<close>, plus 1) and its text decoded as ASCII with U+FFFD for every other
  byte: the line \<open>FREQ TOP: <text> MHz\<close> or \<open>FREQ BOT: <text> MHz\<close> is printed exactly when
  the kind is 3, the text contains the code point 46 (a decimal point) and a code point
  from 48 to 57 (a digit), and the text differs from what \<open>last_freq_by_row\<close> holds for
  that row (also when it holds nothing for the row). The line says \<open>TOP\<close> if the row is at
  most 2 and \<open>BOT\<close> otherwise, and the text is then remembered for the row. Otherwise
  nothing is printed and the memory is as it was. Hence, from a memory that does not
  hold the text: one such packet prints one line, a second and a third identical packet
  print nothing, and a packet for the same row with another frequency text prints a
  second line. The lines are given by their code points: \<open>FREQ\<close> and a space are
  70, 82, 69, 81, 32; \<open>TOP\<close> is 84, 79, 80; \<open>BOT\<close> is 66, 79, 84; the colon and a space are
  58, 32; a space and \<open>MHz\<close> are 32, 77, 72, 122.
\<close>

theorem freq_change_notification:
  assumes "ui_t \<in> {0, 1, 2, 3}"
  shows "(let row = a2 + (if 128 < a1 then (a1 - 1) div 128 else 0) + 1;
              txt = map (\<lambda>b. if b < 0x80 then unat b else 0xFFFD) data;
              line = [70, 82, 69, 81, 32] @ (if row \<le> 2 then [84, 79, 80] else [66, 79, 84]) @
                     [58, 32] @ txt @ [32, 77, 72, 122];
              g' = process_event g (UI ui_t a1 a2 a3 lenb data)
          in if ui_t = 3 \<and> (46 \<in> set txt \<and> (\<exists>c\<in>set txt. 48 \<le> c \<and> c \<le> 57)) \<and>
                dict_get (last_freq_by_row g) row \<noteq> Some txt
             then printed g' = printed g @ [line] \<and>
                  last_freq_by_row g' = dict_set row txt (last_freq_by_row g) \<and>
                  dict_get (last_freq_by_row g') row = Some txt
             else printed g' = printed g \<and> last_freq_by_row g' = last_freq_by_row g) \<and>
         (let row = a2 + (if 128 < a1 then (a1 - 1) div 128 else 0) + 1;
              txt = map (\<lambda>b. if b < 0x80 then unat b else 0xFFFD) data;
              txt' = map (\<lambda>b. if b < 0x80 then unat b else 0xFFFD) data';
              line = [70, 82, 69, 81, 32] @ (if row \<le> 2 then [84, 79, 80] else [66, 79, 84]) @
                     [58, 32] @ txt @ [32, 77, 72, 122];
              line' = [70, 82, 69, 81, 32] @ (if row \<le> 2 then [84, 79, 80] else [66, 79, 84]) @
                     [58, 32] @ txt' @ [32, 77, 72, 122];
              e = UI 3 a1 a2 a3 lenb data;
              e' = UI 3 a1 a2 a3' lenb' data'
          in (46 \<in> set txt \<and> (\<exists>c\<in>set txt. 48 \<le> c \<and> c \<le> 57)) \<and>
             (46 \<in> set txt' \<and> (\<exists>c\<in>set txt'. 48 \<le> c \<and> c \<le> 57)) \<and>
             txt' \<noteq> txt \<and> dict_get (last_freq_by_row g) row \<noteq> Some txt \<longrightarrow>
               printed (process_events g [e]) = printed g @ [line] \<and>
               printed (process_events g [e, e]) = printed g @ [line] \<and>
               printed (process_events g [e, e, e]) = printed g @ [line] \<and>
               printed (process_events g [e, e, e, e']) = printed g @ [line, line'])"
proof -
  note model = freq_change_steps [OF assms, of a1 a2 data g a3 lenb data' a3' lenb',
      unfolded Let_def]
  show ?thesis
    unfolding Let_def text_row_explicit [symmetric] decode_ascii_replace_def [symmetric]
      looks_like_freq_explicit [symmetric] freq_line_explicit [symmetric]
    by (rule model)
qed

theorem freq_change_notification_witness:
  "printed (process_events (gui_init 60)
      [UI 3 5 1 0 7 [0x31, 0x34, 0x35, 0x2E, 0x35, 0x30, 0x30],
       UI 3 5 1 0 7 [0x31, 0x34, 0x35, 0x2E, 0x35, 0x30, 0x30],
       UI 3 5 1 0 7 [0x31, 0x34, 0x35, 0x2E, 0x35, 0x30, 0x30],
       UI 3 5 1 0 7 [0x31, 0x34, 0x35, 0x2E, 0x35, 0x32, 0x35]]) =
     [[70, 82, 69, 81, 32, 84, 79, 80, 58, 32, 49, 52, 53, 46, 53, 48, 48, 32, 77, 72, 122],
      [70, 82, 69, 81, 32, 84, 79, 80, 58, 32, 49, 52, 53, 46, 53, 50, 53, 32, 77, 72, 122]] \<and>
   printed (process_events (gui_init 60)
      [UI 3 5 1 0 7 [0x31, 0x34, 0x35, 0x2E, 0x35, 0x30, 0x30],
       UI 3 5 1 0 7 [0x31, 0x34, 0x35, 0x2E, 0x35, 0x30, 0x30]]) =
     [[70, 82, 69, 81, 32, 84, 79, 80, 58, 32, 49, 52, 53, 46, 53, 48, 48, 32, 77, 72, 122]] \<and>
   printed (process_event (gui_init 60) (UI 3 5 4 0 7 [0x31, 0x34, 0x35, 0x2E, 0x35, 0x30, 0x30])) =
     [[70, 82, 69, 81, 32, 66, 79, 84, 58, 32, 49, 52, 53, 46, 53, 48, 48, 32, 77, 72, 122]] \<and>
   printed (process_event (gui_init 60) (UI 3 200 1 0 3 [0x37, 0x2E, 0x35])) =
     [[70, 82, 69, 81, 32, 66, 79, 84, 58, 32, 55, 46, 53, 32, 77, 72, 122]] \<and>
   last_freq_by_row (process_event (gui_init 60) (UI 3 200 1 0 3 [0x37, 0x2E, 0x35])) =
     [(3, [55, 46, 53])] \<and>
   printed (process_event (gui_init 60) (UI 3 5 1 0 3 [0x61, 0x62, 0x63])) = [] \<and>
   printed (process_event (gui_init 60) (UI 3 5 1 0 3 [0x31, 0x32, 0x33])) = [] \<and>
   printed (process_event (gui_init 60) (UI 3 5 1 0 3 [0x61, 0x2E, 0x62])) = [] \<and>
   last_freq_by_row (process_event (gui_init 60) (UI 3 5 1 0 3 [0x61, 0x2E, 0x62])) = [] \<and>
   printed (process_event (gui_init 60) (UI 2 5 1 0 7 [0x31, 0x34, 0x35, 0x2E, 0x35, 0x30, 0x30])) = []"
proof -
  have k3: "(3::int) \<in> {0, 1, 2, 3}" and k2: "(2::int) \<in> {0, 1, 2, 3}" by simp_all
  note t = freq_change_notification [where g = "gui_init 60"]
  have s4: "printed (process_events (gui_init 60)
      [UI 3 5 1 0 7 [0x31, 0x34, 0x35, 0x2E, 0x35, 0x30, 0x30],
       UI 3 5 1 0 7 [0x31, 0x34, 0x35, 0x2E, 0x35, 0x30, 0x30],
       UI 3 5 1 0 7 [0x31, 0x34, 0x35, 0x2E, 0x35, 0x30, 0x30],
       UI 3 5 1 0 7 [0x31, 0x34, 0x35, 0x2E, 0x35, 0x32, 0x35]]) =
     [[70, 82, 69, 81, 32, 84, 79, 80, 58, 32, 49, 52, 53, 46, 53, 48, 48, 32, 77, 72, 122],
      [70, 82, 69, 81, 32, 84, 79, 80, 58, 32, 49, 52, 53, 46, 53, 50, 53, 32, 77, 72, 122]]"
    and s2: "printed (process_events (gui_init 60)
      [UI 3 5 1 0 7 [0x31, 0x34, 0x35, 0x2E, 0x35, 0x30, 0x30],
       UI 3 5 1 0 7 [0x31, 0x34, 0x35, 0x2E, 0x35, 0x30, 0x30]]) =
     [[70, 82, 69, 81, 32, 84, 79, 80, 58, 32, 49, 52, 53, 46, 53, 48, 48, 32, 77, 72, 122]]"
    using t [OF k3, where ?a1.0 = 5 and ?a2.0 = 1 and data = "[0x31, 0x34, 0x35, 0x2E, 0x35, 0x30, 0x30]" and ?a3.0 = 0 and lenb = 7
               and data' = "[0x31, 0x34, 0x35, 0x2E, 0x35, 0x32, 0x35]" and a3' = 0 and lenb' = 7]
    by (simp_all add: Let_def gui_init_def)
  have bot: "printed (process_event (gui_init 60) (UI 3 5 4 0 7 [0x31, 0x34, 0x35, 0x2E, 0x35, 0x30, 0x30])) =
     [[70, 82, 69, 81, 32, 66, 79, 84, 58, 32, 49, 52, 53, 46, 53, 48, 48, 32, 77, 72, 122]]"
    using t [OF k3, where ?a1.0 = 5 and ?a2.0 = 4 and data = "[0x31, 0x34, 0x35, 0x2E, 0x35, 0x30, 0x30]" and ?a3.0 = 0 and lenb = 7
               and data' = "[]" and a3' = 0 and lenb' = 0]
    by (simp add: Let_def gui_init_def)
  have wrap: "printed (process_event (gui_init 60) (UI 3 200 1 0 3 [0x37, 0x2E, 0x35])) =
     [[70, 82, 69, 81, 32, 66, 79, 84, 58, 32, 55, 46, 53, 32, 77, 72, 122]]"
    and wrapm: "last_freq_by_row (process_event (gui_init 60) (UI 3 200 1 0 3 [0x37, 0x2E, 0x35])) =
     [(3, [55, 46, 53])]"
    using t [OF k3, where ?a1.0 = 200 and ?a2.0 = 1 and data = "[0x37, 0x2E, 0x35]" and ?a3.0 = 0 and lenb = 3
               and data' = "[]" and a3' = 0 and lenb' = 0]
    by (simp_all add: Let_def gui_init_def)
  have n1: "printed (process_event (gui_init 60) (UI 3 5 1 0 3 [0x61, 0x62, 0x63])) = []"
    using t [OF k3, where ?a1.0 = 5 and ?a2.0 = 1 and data = "[0x61, 0x62, 0x63]" and ?a3.0 = 0 and lenb = 3
               and data' = "[]" and a3' = 0 and lenb' = 0]
    by (simp add: Let_def gui_init_def)
  have n2: "printed (process_event (gui_init 60) (UI 3 5 1 0 3 [0x31, 0x32, 0x33])) = []"
    using t [OF k3, where ?a1.0 = 5 and ?a2.0 = 1 and data = "[0x31, 0x32, 0x33]" and ?a3.0 = 0 and lenb = 3
               and data' = "[]" and a3' = 0 and lenb' = 0]
    by (simp add: Let_def gui_init_def)
  have n3: "printed (process_event (gui_init 60) (UI 3 5 1 0 3 [0x61, 0x2E, 0x62])) = []"
    and n3m: "last_freq_by_row (process_event (gui_init 60) (UI 3 5 1 0 3 [0x61, 0x2E, 0x62])) = []"
    using t [OF k3, where ?a1.0 = 5 and ?a2.0 = 1 and data = "[0x61, 0x2E, 0x62]" and ?a3.0 = 0 and lenb = 3
               and data' = "[]" and a3' = 0 and lenb' = 0]
    by (simp_all add: Let_def gui_init_def)
  have n4: "printed (process_event (gui_init 60) (UI 2 5 1 0 7 [0x31, 0x34, 0x35, 0x2E, 0x35, 0x30, 0x30])) = []"
    using t [OF k2, where ?a1.0 = 5 and ?a2.0 = 1 and data = "[0x31, 0x34, 0x35, 0x2E, 0x35, 0x30, 0x30]" and ?a3.0 = 0 and lenb = 7
               and data' = "[]" and a3' = 0 and lenb' = 0]
    by (simp add: Let_def gui_init_def)
  show ?thesis
    using s4 s2 bot wrap wrapm n1 n2 n3 n3m n4 by blast
qed

subsection \<open>CLEAR packets\<close>

lemma set_dict_pop: "set (dict_pop k d) \<subseteq> set d"
  by (induction d) (auto split: if_splits)

lemma set_fold_dict_pop: "set (fold dict_pop ks d) \<subseteq> set d"
proof (induction ks arbitrary: d)
  case Nil
  then show ?case by simp
next
  case (Cons k ks)
  have "set (fold dict_pop ks (dict_pop k d)) \<subseteq> set (dict_pop k d)" by (rule Cons.IH)
  then show ?case using set_dict_pop [of k d] by auto
qed

lemma clear_lines_frame:
  "clear_lines y1 y2 g = g\<lparr>buffer := buffer (clear_lines y1 y2 g)\<rparr> \<and>
   set (buffer (clear_lines y1 y2 g)) \<subseteq> set (buffer g)"
  by (simp add: clear_lines_def Let_def set_fold_dict_pop)

lemma clear_cursor_fold_frame:
  "last_freq_by_row (fold (\<lambda>r g. (delete_tag (cursor_tag r) g)\<lparr>cursor_rows := dict_pop r (cursor_rows g)\<rparr>) dead g) = last_freq_by_row g \<and>
   printed (fold (\<lambda>r g. (delete_tag (cursor_tag r) g)\<lparr>cursor_rows := dict_pop r (cursor_rows g)\<rparr>) dead g) = printed g \<and>
   last_cursor_row (fold (\<lambda>r g. (delete_tag (cursor_tag r) g)\<lparr>cursor_rows := dict_pop r (cursor_rows g)\<rparr>) dead g) = last_cursor_row g \<and>
   vfo_state (fold (\<lambda>r g. (delete_tag (cursor_tag r) g)\<lparr>cursor_rows := dict_pop r (cursor_rows g)\<rparr>) dead g) = vfo_state g \<and>
   status_var (fold (\<lambda>r g. (delete_tag (cursor_tag r) g)\<lparr>cursor_rows := dict_pop r (cursor_rows g)\<rparr>) dead g) = status_var g \<and>
   keydown_ms (fold (\<lambda>r g. (delete_tag (cursor_tag r) g)\<lparr>cursor_rows := dict_pop r (cursor_rows g)\<rparr>) dead g) = keydown_ms g \<and>
   set (buffer (fold (\<lambda>r g. (delete_tag (cursor_tag r) g)\<lparr>cursor_rows := dict_pop r (cursor_rows g)\<rparr>) dead g)) \<subseteq> set (buffer g) \<and>
   set (cursor_rows (fold (\<lambda>r g. (delete_tag (cursor_tag r) g)\<lparr>cursor_rows := dict_pop r (cursor_rows g)\<rparr>) dead g)) \<subseteq> set (cursor_rows g)"
proof (induction dead arbitrary: g)
  case Nil
  then show ?case by simp
next
  case (Cons r dead)
  let ?g = "(delete_tag (cursor_tag r) g)\<lparr>cursor_rows := dict_pop r (cursor_rows g)\<rparr>"
  have b: "set (buffer ?g) \<subseteq> set (buffer g)" "set (cursor_rows ?g) \<subseteq> set (cursor_rows g)"
    by (simp_all add: delete_tag_def set_dict_pop)
  show ?case
    using Cons.IH [of ?g] b by (auto simp add: delete_tag_def)
qed

lemma clear_frame:
  "last_freq_by_row (process_event g (UI 5 a1 a2 a3 lenb data)) = last_freq_by_row g \<and>
   printed (process_event g (UI 5 a1 a2 a3 lenb data)) = printed g \<and>
   last_cursor_row (process_event g (UI 5 a1 a2 a3 lenb data)) = last_cursor_row g \<and>
   vfo_state (process_event g (UI 5 a1 a2 a3 lenb data)) = vfo_state g \<and>
   status_var (process_event g (UI 5 a1 a2 a3 lenb data)) = status_var g \<and>
   keydown_ms (process_event g (UI 5 a1 a2 a3 lenb data)) = keydown_ms g \<and>
   set (buffer (process_event g (UI 5 a1 a2 a3 lenb data))) \<subseteq> set (buffer g) \<and>
   set (cursor_rows (process_event g (UI 5 a1 a2 a3 lenb data))) \<subseteq> set (cursor_rows g)"
proof -
  let ?c = "clear_lines a1 a2 g"
  have c: "last_freq_by_row ?c = last_freq_by_row g" "printed ?c = printed g"
    "last_cursor_row ?c = last_cursor_row g" "vfo_state ?c = vfo_state g"
    "status_var ?c = status_var g" "keydown_ms ?c = keydown_ms g"
    "cursor_rows ?c = cursor_rows g" "set (buffer ?c) \<subseteq> set (buffer g)"
    by (simp_all add: clear_lines_def Let_def set_fold_dict_pop)
  have p: "process_event g (UI 5 a1 a2 a3 lenb data) = clear_cursor_rows a1 a2 ?c"
    by (simp add: process_event_def)
  show ?thesis
    unfolding p clear_cursor_rows_def Let_def
    using clear_cursor_fold_frame [of "filter (\<lambda>r. a1 \<le> r \<and> r \<le> a2) (map fst (cursor_rows ?c))" ?c] c
    by auto
qed

text \<open>
  Claim C10. A CLEAR packet (kind 5) leaves \<open>last_freq_by_row\<close> as it was, for every
  row, and likewise the printed lines, the remembered cursor row, the VFO and the status
  line; entries are only taken out of the buffer of the view and out of \<open>cursor_rows\<close>.
  Hence a kind-3 packet that arrives after the CLEAR with the text that was remembered
  for its row before the CLEAR prints nothing.
\<close>

theorem clear_keeps_frequency_memory:
  "(let g' = process_event g (UI 5 a1 a2 a3 lenb data)
    in last_freq_by_row g' = last_freq_by_row g \<and> printed g' = printed g \<and>
       last_cursor_row g' = last_cursor_row g \<and> vfo_state g' = vfo_state g \<and>
       status_var g' = status_var g \<and> keydown_ms g' = keydown_ms g \<and>
       set (buffer g') \<subseteq> set (buffer g) \<and> set (cursor_rows g') \<subseteq> set (cursor_rows g)) \<and>
   (dict_get (last_freq_by_row g) (snd (ui_unpack_xy b1 b2) + 1) = Some (decode_ascii_replace data') \<longrightarrow>
      printed (process_events g [UI 5 a1 a2 a3 lenb data, UI 3 b1 b2 b3 lenb' data']) = printed g)"
  using clear_frame [of g a1 a2 a3 lenb data]
  by (simp add: Let_def text3_printed)

theorem clear_keeps_frequency_memory_witness:
  "last_freq_by_row (process_events (gui_init 60)
      [UI 3 5 1 0 7 [0x31, 0x34, 0x35, 0x2E, 0x35, 0x30, 0x30], UI 5 0 7 0 0 []]) =
     [(2, [49, 52, 53, 46, 53, 48, 48])] \<and>
   printed (process_events (gui_init 60)
      [UI 3 5 1 0 7 [0x31, 0x34, 0x35, 0x2E, 0x35, 0x30, 0x30], UI 5 0 7 0 0 [],
       UI 3 5 1 0 7 [0x31, 0x34, 0x35, 0x2E, 0x35, 0x30, 0x30]]) =
     [freq_line ''TOP'' [49, 52, 53, 46, 53, 48, 48]]"
proof -
  let ?d = "[0x31, 0x34, 0x35, 0x2E, 0x35, 0x30, 0x30] :: byte list"
  let ?g = "process_event (gui_init 60) (UI 3 5 1 0 7 ?d)"
  have t: "decode_ascii_replace ?d = [49, 52, 53, 46, 53, 48, 48]"
    by (simp add: decode_ascii_replace_def)
  have f: "looks_like_freq [49, 52, 53, 46, 53, 48, 48]"
    by (simp add: looks_like_freq_def isdigit_def)
  have r: "ui_unpack_xy 5 1 = (5, 1)" by (simp add: ui_unpack_xy_closed)
  have m: "last_freq_by_row ?g = [(2, [49, 52, 53, 46, 53, 48, 48])]"
          "printed ?g = [freq_line ''TOP'' [49, 52, 53, 46, 53, 48, 48]]"
    by (simp_all add: process_text Let_def t f r gui_init_def)
  show ?thesis
    using clear_keeps_frequency_memory [of ?g 0 7 0 0 "[]" 5 1 ?d 0 7]
    by (simp add: Let_def t r m)
qed

subsection \<open>The float model\<close>

text \<open>
  \<open>ilog2\<close> is the binary exponent; \<open>fl q\<close> is a multiple of \<open>2 powi (ilog2 \<bar>q\<bar> - 52)\<close>
  (53 significant bits) at a distance of at most half of that unit from \<open>q\<close>, and a
  number that has such a representation is not changed. In particular the conversion of
  an \<open>int\<close> below \<open>2 ^ 53\<close> in magnitude to a \<open>float\<close> is exact.
\<close>

lemma round_half_even_error: "\<bar>of_int (round_half_even x) - x\<bar> \<le> 1 / 2"
proof -
  have f: "of_int \<lfloor>x\<rfloor> \<le> x" "x < of_int \<lfloor>x\<rfloor> + 1" by linarith+
  show ?thesis
    using f by (auto simp add: round_half_even_def Let_def abs_le_iff)
qed

lemma round_half_even_of_int: "round_half_even (of_int n) = n"
  by (simp add: round_half_even_def)

lemma bitlen_powi:
  assumes "0 < a"
  shows "2 powi (bitlen a - 1) \<le> (of_int a :: rat) \<and> (of_int a :: rat) < 2 powi bitlen a"
proof -
  have b: "2 ^ nat (bitlen a - 1) \<le> a" "a < 2 ^ nat (bitlen a)"
    using bitlen_bounds [OF assms] by simp_all
  have p: "1 \<le> bitlen a" using assms by (auto simp: bitlen_alt_def)
  have "(2::rat) powi (bitlen a - 1) = 2 ^ nat (bitlen a - 1)"
    using p by (simp add: power_int_def)
  moreover have "(2::rat) powi bitlen a = 2 ^ nat (bitlen a)"
    using p by (simp add: power_int_def)
  moreover have "(2::rat) ^ nat (bitlen a - 1) \<le> of_int a"
    using b(1) by (metis of_int_le_iff of_int_numeral of_int_power)
  moreover have "(of_int a :: rat) < 2 ^ nat (bitlen a)"
    using b(2) by (metis of_int_less_iff of_int_numeral of_int_power)
  ultimately show ?thesis by simp
qed

lemma ilog2_bounds:
  assumes "0 < q"
  shows "2 powi ilog2 q \<le> q \<and> q < 2 powi (ilog2 q + 1)"
proof -
  obtain a b where ab: "quotient_of q = (a, b)" by (cases "quotient_of q")
  have b: "0 < b" using ab by (rule quotient_of_denom_pos)
  have q: "q = of_int a / of_int b" using ab by (rule quotient_of_div)
  have a: "0 < a" using assms b q by (simp add: zero_less_divide_iff)
  let ?e = "bitlen a - bitlen b"
  have A: "2 powi (bitlen a - 1) \<le> (of_int a :: rat)" "(of_int a :: rat) < 2 powi bitlen a"
    using bitlen_powi [OF a] by simp_all
  have B: "2 powi (bitlen b - 1) \<le> (of_int b :: rat)" "(of_int b :: rat) < 2 powi bitlen b"
    using bitlen_powi [OF b] by simp_all
  have bpos: "(0::rat) < of_int b" using b by simp
  have up: "q < 2 powi (?e + 1)"
  proof -
    have "of_int a < (2::rat) powi (?e + 1) * 2 powi (bitlen b - 1)"
      using A(2) by (simp flip: power_int_add)
    also have "\<dots> \<le> 2 powi (?e + 1) * of_int b"
      using B(1) by (simp add: mult_left_mono)
    finally show ?thesis using bpos by (simp add: q pos_divide_less_eq)
  qed
  have lo: "2 powi (?e - 1) < q"
  proof -
    have "(2::rat) powi (?e - 1) * of_int b < 2 powi (?e - 1) * 2 powi bitlen b"
      using B(2) by (simp add: mult_strict_left_mono)
    also have "\<dots> = 2 powi (bitlen a - 1)"
      by (simp flip: power_int_add)
    also have "\<dots> \<le> of_int a" by (rule A(1))
    finally show ?thesis using bpos by (simp add: q pos_less_divide_eq)
  qed
  show ?thesis
  proof (cases "2 powi ?e \<le> q")
    case True
    then have "ilog2 q = ?e" by (simp add: ilog2_def ab Let_def)
    then show ?thesis using True up by simp
  next
    case False
    then have "ilog2 q = ?e - 1" by (simp add: ilog2_def ab Let_def)
    then show ?thesis using False lo by simp
  qed
qed


lemma ilog2_unique:
  assumes "0 < q" and "2 powi e \<le> q" and "q < 2 powi (e + 1)"
  shows "ilog2 q = e"
proof -
  have b: "2 powi ilog2 q \<le> q" "q < 2 powi (ilog2 q + 1)"
    using ilog2_bounds [OF assms(1)] by simp_all
  have "\<not> ilog2 q + 1 \<le> e"
  proof
    assume "ilog2 q + 1 \<le> e"
    then have "(2::rat) powi (ilog2 q + 1) \<le> 2 powi e" by (intro power_int_increasing) simp_all
    then show False using assms(2) b(2) by simp
  qed
  moreover have "\<not> e + 1 \<le> ilog2 q"
  proof
    assume "e + 1 \<le> ilog2 q"
    then have "(2::rat) powi (e + 1) \<le> 2 powi ilog2 q" by (intro power_int_increasing) simp_all
    then show False using assms(3) b(1) by simp
  qed
  ultimately show ?thesis by simp
qed

lemma fl_error:
  assumes "q \<noteq> 0"
  shows "\<bar>fl q - q\<bar> \<le> 2 powi (ilog2 \<bar>q\<bar> - 53)"
proof -
  let ?u = "(2::rat) powi (ilog2 \<bar>q\<bar> - 52)"
  have u: "0 < ?u" by simp
  have "fl q - q = (of_int (round_half_even (q / ?u)) - q / ?u) * ?u"
    using assms u by (simp add: fl_def Let_def algebra_simps)
  then have "\<bar>fl q - q\<bar> = \<bar>of_int (round_half_even (q / ?u)) - q / ?u\<bar> * ?u"
    using u by (simp add: abs_mult)
  also have "\<dots> \<le> (1 / 2) * ?u"
    using round_half_even_error [of "q / ?u"] u by (intro mult_right_mono) simp_all
  also have "\<dots> = 2 powi (ilog2 \<bar>q\<bar> - 53)"
  proof -
    have "ilog2 \<bar>q\<bar> - 52 = (ilog2 \<bar>q\<bar> - 53) + 1" by simp
    then have "?u = 2 powi (ilog2 \<bar>q\<bar> - 53) * 2"
      using power_int_add_1 [of "2::rat" "ilog2 \<bar>q\<bar> - 53"] by simp
    then show ?thesis by simp
  qed
  finally show ?thesis .
qed


lemma fl_representable:
  assumes "m \<noteq> 0" and "\<bar>m\<bar> < 2 ^ 53"
  shows "fl (of_int m * 2 powi k) = of_int m * 2 powi k"
proof -
  let ?q = "of_int m * (2::rat) powi k"
  let ?a = "(of_int \<bar>m\<bar>) :: rat"
  have apos: "0 < ?a" using assms(1) by simp
  have q0: "?q \<noteq> 0" using assms(1) by simp
  have absq: "\<bar>?q\<bar> = ?a * 2 powi k" by (simp add: abs_mult)
  have ab: "2 powi ilog2 ?a \<le> ?a" "?a < 2 powi (ilog2 ?a + 1)"
    using ilog2_bounds [OF apos] by simp_all
  have e: "ilog2 \<bar>?q\<bar> = ilog2 ?a + k"
  proof (rule ilog2_unique)
    show "0 < \<bar>?q\<bar>" using q0 by simp
    have "(2::rat) powi (ilog2 ?a + k) = 2 powi ilog2 ?a * 2 powi k" by (simp add: power_int_add)
    also have "\<dots> \<le> ?a * 2 powi k" using ab(1) by (intro mult_right_mono) simp_all
    finally show "2 powi (ilog2 ?a + k) \<le> \<bar>?q\<bar>" by (simp only: absq)
    have "?a * 2 powi k < 2 powi (ilog2 ?a + 1) * 2 powi k"
      using ab(2) by (intro mult_strict_right_mono) simp_all
    also have "\<dots> = 2 powi (ilog2 ?a + k + 1)" by (simp add: power_int_add)
    finally show "\<bar>?q\<bar> < 2 powi (ilog2 ?a + k + 1)" by (simp only: absq)
  qed
  have le52: "ilog2 ?a \<le> 52"
  proof (rule ccontr)
    assume "\<not> ilog2 ?a \<le> 52"
    then have "53 \<le> ilog2 ?a" by simp
    then have "(2::rat) powi 53 \<le> 2 powi ilog2 ?a" by (intro power_int_increasing) simp_all
    then have "(2::rat) ^ 53 \<le> ?a" using ab(1) by simp
    moreover have "?a < 2 ^ 53"
      using assms(2) by (metis of_int_less_iff of_int_numeral of_int_power)
    ultimately show False by simp
  qed
  define n where "n = nat (52 - ilog2 ?a)"
  have n: "int n = 52 - ilog2 ?a" using le52 by (simp add: n_def)
  have "?q / 2 powi (ilog2 \<bar>?q\<bar> - 52) = of_int m * (2 powi k / 2 powi (ilog2 ?a + k - 52))"
    by (simp add: e)
  also have "2 powi k / (2::rat) powi (ilog2 ?a + k - 52) = 2 powi (52 - ilog2 ?a)"
    by (simp flip: power_int_diff)
  also have "\<dots> = 2 ^ n" using n by (metis power_int_of_nat)
  finally have d: "?q / 2 powi (ilog2 \<bar>?q\<bar> - 52) = of_int (m * 2 ^ n)" by simp
  have "fl ?q = of_int (m * 2 ^ n) * 2 powi (ilog2 \<bar>?q\<bar> - 52)"
    using q0 unfolding fl_def Let_def d round_half_even_of_int by simp
  also have "\<dots> = ?q / 2 powi (ilog2 \<bar>?q\<bar> - 52) * 2 powi (ilog2 \<bar>?q\<bar> - 52)"
    by (simp only: d)
  also have "\<dots> = ?q" by simp
  finally show ?thesis .
qed

lemma fl_of_int: "\<bar>n\<bar> < 2 ^ 53 \<Longrightarrow> fl (of_int n) = of_int n"
  using fl_representable [of n 0] by (cases "n = 0") (simp_all add: fl_def)

lemma int_mul_float_exact: "\<bar>n\<bar> < 2 ^ 53 \<Longrightarrow> int_mul_float n x = fl (of_int n * x)"
  by (simp add: int_mul_float_def fl_of_int)

lemma int_div_float_exact: "\<bar>n\<bar> < 2 ^ 53 \<Longrightarrow> int_div_float n x = fl (of_int n / x)"
  by (simp add: int_div_float_def fl_of_int)

subsection \<open>STATUS packets: the battery\<close>

lemma float_84: "fl (84 / 10) = 4728779608739021 / 562949953421312"
  by code_simp

lemma battery_210: "decode_battery 210 = (4728779608739021 / 562949953421312, 100)"
  by code_simp

lemma battery_255:
  "decode_battery 255 = (4728779608739021 / 562949953421312, 4272388039358171 / 35184372088832)"
  by code_simp

lemma product_255: "int_mul_float 255 (fl (4 / 100)) = 5742089524897383 / 562949953421312"
  by code_simp

lemma decode_battery_sample:
  "decode_battery L =
     (min (int_mul_float L (fl (4 / 100))) (fl (84 / 10)), int_div_float L (fl (21 / 10))) \<and>
   (0 \<le> L \<and> L \<le> 255 \<longrightarrow>
      decode_battery L =
        (min (fl (of_int L * fl (4 / 100))) (fl (84 / 10)), fl (of_int L / fl (21 / 10)))) \<and>
   fst (decode_battery L) \<le> fl (84 / 10) \<and>
   fl (84 / 10) = 4728779608739021 / 562949953421312 \<and>
   snd (decode_battery 210) = 100 \<and>
   fst (decode_battery 255) = fl (84 / 10) \<and>
   fl (84 / 10) < int_mul_float 255 (fl (4 / 100)) \<and>
   100 < snd (decode_battery 255)"
proof -
  have a: "decode_battery L =
     (min (int_mul_float L (fl (4 / 100))) (fl (84 / 10)), int_div_float L (fl (21 / 10)))"
    by (simp only: decode_battery_def Let_def)
  have a': "0 \<le> L \<and> L \<le> 255 \<longrightarrow>
      decode_battery L =
        (min (fl (of_int L * fl (4 / 100))) (fl (84 / 10)), fl (of_int L / fl (21 / 10)))"
  proof
    assume "0 \<le> L \<and> L \<le> 255"
    then have "\<bar>L\<bar> < 2 ^ 53" by simp
    then show "decode_battery L =
        (min (fl (of_int L * fl (4 / 100))) (fl (84 / 10)), fl (of_int L / fl (21 / 10)))"
      unfolding a by (simp only: int_mul_float_exact int_div_float_exact)
  qed
  have b: "fst (decode_battery L) \<le> fl (84 / 10)"
    unfolding a by (simp only: fst_conv min.cobounded2)
  have c: "snd (decode_battery 210) = 100"
    unfolding battery_210 by simp
  have d: "fst (decode_battery 255) = fl (84 / 10)"
    unfolding battery_255 float_84 by simp
  have e: "fl (84 / 10) < int_mul_float 255 (fl (4 / 100))"
    unfolding float_84 product_255 by simp
  have f: "100 < snd (decode_battery 255)"
    unfolding battery_255 by simp
  show ?thesis
    using a a' b float_84 c d e f by blast
qed

lemma derive_vfo_keydown: "keydown_ms (derive_vfo_from_cursors g) = keydown_ms g"
  by (simp add: derive_vfo_eq)

lemma status_event:
  "process_event g (UI 6 a1 a2 a3 L data) =
     (derive_vfo_from_cursors g)
       \<lparr>status_var := StatusLine (vfo_state (derive_vfo_from_cursors g)) a1 a2
          (fst (decode_battery L)) (snd (decode_battery L)) (keydown_ms g)\<rparr>"
  by (simp add: process_event_def Let_def derive_vfo_keydown split: prod.splits)

lemma status_packet_from_parser:
  "snd (feed_chunk (parser_init, []) [0xB5, 6, b1, b2, b3, Lb]) =
     [UI 6 (uint b1) (uint b2) (uint b3) (uint Lb) []]"
proof -
  have i: "stage parser_init = IDLE" by (simp add: parser_init_def)
  have l: "int (length ([]::byte list)) = (if (6::byte) = 6 then 0 else uint Lb)" by simp
  show ?thesis
    using feed_UI_packet [OF i l, of "[]" b1 b2 b3] by simp
qed

lemma battery_100: "decode_battery 100 = (4, 1675446289944381 / 35184372088832)"
  by code_simp

text \<open>
  Claim C9. A STATUS packet (kind 6) with the length byte \<open>L\<close>, from 0 to 255, changes
  the VFO and sets the status line, whose battery sample is the volts
  \<open>min(L * 0.04, 8.4)\<close> and the percent \<open>L / 2.1\<close>, in binary64 arithmetic, one rounding
  for each literal and each operation; so does the packet \<open>B5 06 b1 b2 b3 L\<close> that the
  parser hands over. The volts never exceed the float \<open>8.4\<close>, which is
  4728779608739021 / 2^49; the percent is not clamped. \<open>L = 210\<close> gives the percent
  100.0 exactly; \<open>L = 255\<close> gives the volts 8.4, although the product \<open>255 * 0.04\<close>
  is the float 10.200000000000001, and a percent of about 121.4.
\<close>

theorem battery_sample:
  "(0 \<le> L \<and> L \<le> 255 \<longrightarrow>
      process_event g (UI 6 a1 a2 a3 L data) =
        (derive_vfo_from_cursors g)
          \<lparr>status_var := StatusLine (vfo_state (derive_vfo_from_cursors g)) a1 a2
             (min (fl (of_int L * fl (4 / 100))) (fl (84 / 10)))
             (fl (of_int L / fl (21 / 10))) (keydown_ms g)\<rparr>) \<and>
   status_var (process_events g (snd (feed_chunk (parser_init, []) [0xB5, 6, b1, b2, b3, Lb]))) =
     StatusLine (vfo_state (derive_vfo_from_cursors g)) (uint b1) (uint b2)
       (min (fl (of_int (uint Lb) * fl (4 / 100))) (fl (84 / 10)))
       (fl (of_int (uint Lb) / fl (21 / 10))) (keydown_ms g) \<and>
   min (fl (of_int L * fl (4 / 100))) (fl (84 / 10)) \<le> fl (84 / 10) \<and>
   fl (84 / 10) = 4728779608739021 / 562949953421312 \<and>
   status_var (process_event g (UI 6 a1 a2 a3 210 data)) =
     StatusLine (vfo_state (derive_vfo_from_cursors g)) a1 a2
       (4728779608739021 / 562949953421312) 100 (keydown_ms g) \<and>
   status_var (process_event g (UI 6 a1 a2 a3 255 data)) =
     StatusLine (vfo_state (derive_vfo_from_cursors g)) a1 a2
       (4728779608739021 / 562949953421312) (4272388039358171 / 35184372088832) (keydown_ms g) \<and>
   fl (of_int 255 * fl (4 / 100)) = 5742089524897383 / 562949953421312 \<and>
   fl (84 / 10) < fl (of_int 255 * fl (4 / 100)) \<and>
   (100::rat) < 4272388039358171 / 35184372088832 \<and>
   decode_battery L =
     (min (int_mul_float L (fl (4 / 100))) (fl (84 / 10)), int_div_float L (fl (21 / 10))) \<and>
   fst (decode_battery L) \<le> fl (84 / 10) \<and>
   snd (decode_battery 210) = 100 \<and>
   fst (decode_battery 255) = fl (84 / 10) \<and>
   100 < snd (decode_battery 255)"
proof -
  have old: "decode_battery L =
       (min (int_mul_float L (fl (4 / 100))) (fl (84 / 10)), int_div_float L (fl (21 / 10)))"
    "fst (decode_battery L) \<le> fl (84 / 10)"
    "snd (decode_battery 210) = 100"
    "fst (decode_battery 255) = fl (84 / 10)"
    "100 < snd (decode_battery 255)"
    using decode_battery_sample [of L] by blast+
  have ex: "\<And>n. 0 \<le> n \<and> n \<le> 255 \<Longrightarrow>
      decode_battery n =
        (min (fl (of_int n * fl (4 / 100))) (fl (84 / 10)), fl (of_int n / fl (21 / 10)))"
    subgoal for n using decode_battery_sample [of n] by blast
    done
  have a: "0 \<le> L \<and> L \<le> 255 \<longrightarrow>
      process_event g (UI 6 a1 a2 a3 L data) =
        (derive_vfo_from_cursors g)
          \<lparr>status_var := StatusLine (vfo_state (derive_vfo_from_cursors g)) a1 a2
             (min (fl (of_int L * fl (4 / 100))) (fl (84 / 10)))
             (fl (of_int L / fl (21 / 10))) (keydown_ms g)\<rparr>"
  proof
    assume r: "0 \<le> L \<and> L \<le> 255"
    show "process_event g (UI 6 a1 a2 a3 L data) =
        (derive_vfo_from_cursors g)
          \<lparr>status_var := StatusLine (vfo_state (derive_vfo_from_cursors g)) a1 a2
             (min (fl (of_int L * fl (4 / 100))) (fl (84 / 10)))
             (fl (of_int L / fl (21 / 10))) (keydown_ms g)\<rparr>"
      unfolding status_event ex [OF r] by (simp only: fst_conv snd_conv)
  qed
  have rng: "0 \<le> uint Lb \<and> uint Lb \<le> 255"
    using uint_lt2p [of Lb] by simp
  have b: "status_var (process_events g (snd (feed_chunk (parser_init, []) [0xB5, 6, b1, b2, b3, Lb]))) =
     StatusLine (vfo_state (derive_vfo_from_cursors g)) (uint b1) (uint b2)
       (min (fl (of_int (uint Lb) * fl (4 / 100))) (fl (84 / 10)))
       (fl (of_int (uint Lb) / fl (21 / 10))) (keydown_ms g)"
    unfolding status_packet_from_parser process_events.simps status_event ex [OF rng]
    by simp
  have c: "min (fl (of_int L * fl (4 / 100))) (fl (84 / 10)) \<le> fl (84 / 10)"
    by (rule min.cobounded2)
  have d: "status_var (process_event g (UI 6 a1 a2 a3 210 data)) =
     StatusLine (vfo_state (derive_vfo_from_cursors g)) a1 a2
       (4728779608739021 / 562949953421312) 100 (keydown_ms g)"
    unfolding status_event battery_210 by simp
  have e: "status_var (process_event g (UI 6 a1 a2 a3 255 data)) =
     StatusLine (vfo_state (derive_vfo_from_cursors g)) a1 a2
       (4728779608739021 / 562949953421312) (4272388039358171 / 35184372088832) (keydown_ms g)"
    unfolding status_event battery_255 by simp
  have p: "fl (of_int 255 * fl (4 / 100)) = 5742089524897383 / 562949953421312"
    using int_mul_float_exact [of 255 "fl (4 / 100)"] product_255 by simp
  have f: "fl (84 / 10) < fl (of_int 255 * fl (4 / 100))"
    unfolding p float_84 by simp
  have h: "(100::rat) < 4272388039358171 / 35184372088832" by simp
  show ?thesis
    using a b c float_84 d e p f h old by blast
qed

theorem battery_sample_witness:
  "status_var (process_events (gui_init 60)
      (snd (feed_chunk (parser_init, []) [0xB5, 6, 1, 2, 3, 210]))) =
     StatusLine ''?'' 1 2 (4728779608739021 / 562949953421312) 100 60 \<and>
   status_var (process_event (gui_init 60) (UI 6 1 2 3 255 [])) =
     StatusLine ''?'' 1 2 (4728779608739021 / 562949953421312)
       (4272388039358171 / 35184372088832) 60 \<and>
   status_var (process_event (gui_init 60) (UI 6 1 2 3 100 [])) =
     StatusLine ''?'' 1 2 4 (1675446289944381 / 35184372088832) 60"
proof -
  note t = battery_sample
    [where g = "gui_init 60" and ?a1.0 = 1 and ?a2.0 = 2 and ?a3.0 = 3 and data = "[]"
       and L = 100 and ?b1.0 = 1 and ?b2.0 = 2 and ?b3.0 = 3 and Lb = 210]
  have h: "(0::int) \<le> 100 \<and> (100::int) \<le> 255" by simp
  have v: "vfo_state (derive_vfo_from_cursors (gui_init 60)) = ''?''"
    "keydown_ms (gui_init 60) = 60"
    by (simp_all add: derive_vfo_from_cursors_def gui_init_def)
  have u: "uint (1::byte) = 1" "uint (2::byte) = 2" "uint (210::byte) = 210" by simp_all
  have f210: "min (fl (of_int 210 * fl (4 / 100))) (fl (84 / 10)) =
                4728779608739021 / 562949953421312"
    "fl (of_int 210 / fl (21 / 10)) = 100"
    by code_simp+
  have f100: "min (fl (of_int 100 * fl (4 / 100))) (fl (84 / 10)) = 4"
    "fl (of_int 100 / fl (21 / 10)) = 1675446289944381 / 35184372088832"
    by code_simp+
  have c1: "status_var (process_events (gui_init 60)
      (snd (feed_chunk (parser_init, []) [0xB5, 6, 1, 2, 3, 210]))) =
     StatusLine ''?'' 1 2 (4728779608739021 / 562949953421312) 100 60"
    using t unfolding u v f210 by blast
  have c2: "status_var (process_event (gui_init 60) (UI 6 1 2 3 255 [])) =
     StatusLine ''?'' 1 2 (4728779608739021 / 562949953421312)
       (4272388039358171 / 35184372088832) 60"
    using t unfolding v by blast
  have "process_event (gui_init 60) (UI 6 1 2 3 100 []) =
          (derive_vfo_from_cursors (gui_init 60))
            \<lparr>status_var := StatusLine ''?'' 1 2 4 (1675446289944381 / 35184372088832) 60\<rparr>"
    using t h unfolding v f100 by blast
  then have c3: "status_var (process_event (gui_init 60) (UI 6 1 2 3 100 [])) =
     StatusLine ''?'' 1 2 4 (1675446289944381 / 35184372088832) 60"
    by simp
  show ?thesis using c1 c2 c3 by blast
qed

end
